theory Spec2Isabelle
  imports Main "HOL-Library.Word" "HOL-Library.Sublist"
begin

unbundle bit_operations_syntax

section \<open>Bytes, errors and big-endian integers\<close>

type_synonym byte = "8 word"
type_synonym uint16 = "16 word"
type_synonym uint32 = "32 word"
type_synonym uint64 = "64 word"

text \<open>
  Every way a call can fail is a value. The first four are Go run-time panics, which
  unwind the caller; the others are \<open>error\<close> values handed back through the
  \<open>(result, error)\<close> return of the source.
\<close>

datatype error =
    PanicIndexOutOfRange
  | PanicSliceBounds
  | PanicTypeAssertion
  | PanicMakeslice
  | ErrIsNotEncrypted string
  | ErrNoSinfBox
  | ErrBadSize string
  | ErrBoxTooBig
  | ErrSliceWriter
  | ErrWrite
  | ErrShortBody
  | EOF
  | ErrOther string

fun is_panic :: "error \<Rightarrow> bool" where
  "is_panic PanicIndexOutOfRange = True"
| "is_panic PanicSliceBounds = True"
| "is_panic PanicTypeAssertion = True"
| "is_panic PanicMakeslice = True"
| "is_panic _ = False"

text \<open>
  The slice expression \<open>data[lo:hi]\<close> of Go on a slice whose capacity is its length:
  it panics unless \<open>lo \<le> hi \<le> len(data)\<close>.
\<close>

definition slice :: "byte list \<Rightarrow> nat \<Rightarrow> nat \<Rightarrow> error + byte list" where
  "slice data lo hi =
     (if lo \<le> hi \<and> hi \<le> length data then Inr (take (hi - lo) (drop lo data))
      else Inl PanicSliceBounds)"

text \<open>
  \<open>binary.BigEndian.Uint32\<close>, \<open>Uint16\<close> and their \<open>Put\<close> counterparts. The readers are
  applied to slices of exactly four or two bytes; their value on a list of another
  length is never the result of a successful read.
\<close>

fun BigEndian_Uint32 :: "byte list \<Rightarrow> uint32" where
  "BigEndian_Uint32 [b0, b1, b2, b3] =
     push_bit 24 (ucast b0) OR push_bit 16 (ucast b1) OR push_bit 8 (ucast b2) OR ucast b3"
| "BigEndian_Uint32 _ = 0"

definition BigEndian_PutUint32 :: "uint32 \<Rightarrow> byte list" where
  "BigEndian_PutUint32 v =
     [ucast (drop_bit 24 v), ucast (drop_bit 16 v), ucast (drop_bit 8 v), ucast v]"

fun BigEndian_Uint16 :: "byte list \<Rightarrow> uint16" where
  "BigEndian_Uint16 [b0, b1] = push_bit 8 (ucast b0) OR ucast b1"
| "BigEndian_Uint16 _ = 0"

definition BigEndian_PutUint16 :: "uint16 \<Rightarrow> byte list" where
  "BigEndian_PutUint16 v = [ucast (drop_bit 8 v), ucast v]"

section \<open>Sync sample box (stss)\<close>

record StssBox =
  Version :: byte
  Flags :: uint32
  SampleNumber :: "uint32 list"

text \<open>
  The binary search of \<open>IsSyncSample\<close>. The indices are Go \<open>int\<close>s between 0 and the
  length of a \<open>[]uint32\<close>, so \<open>i + j\<close> stays far below \<open>2^63\<close> and they are
  natural numbers here. The read \<open>b.SampleNumber[h]\<close> panics out of range.
\<close>

function IsSyncSample_loop :: "uint32 list \<Rightarrow> uint32 \<Rightarrow> nat \<Rightarrow> nat \<Rightarrow> error + nat" where
  "IsSyncSample_loop xs sampleNr i j =
     (if i < j then
        (if length xs \<le> (i + j) div 2 then Inl PanicIndexOutOfRange
         else if xs ! ((i + j) div 2) < sampleNr
              then IsSyncSample_loop xs sampleNr ((i + j) div 2 + 1) j
              else IsSyncSample_loop xs sampleNr i ((i + j) div 2))
      else Inr i)"
  by pat_completeness auto
termination
  by (relation "measure (\<lambda>(xs, sampleNr, i, j). j - i)") auto

text \<open>
  The method has a pointer receiver; the box after the call is returned with the answer.
\<close>

definition IsSyncSample :: "StssBox \<Rightarrow> uint32 \<Rightarrow> (error + bool) \<times> StssBox" where
  "IsSyncSample b sampleNr =
     (case IsSyncSample_loop (SampleNumber b) sampleNr 0 (length (SampleNumber b)) of
        Inl e \<Rightarrow> (Inl e, b)
      | Inr i \<Rightarrow>
          (Inr (i < length (SampleNumber b) \<and> SampleNumber b ! i = sampleNr), b))"


section \<open>Collaborators of the box codec\<close>

text \<open>
  Modelled from the spec: the constants \<open>boxHeaderSize\<close> and \<open>flagsMask\<close> are declared
  outside the sources at hand. The spec gives the generic box header as a 4-byte size
  and a 4-byte type tag (8 bytes) and the flags as a 24-bit field.
\<close>

definition boxHeaderSize :: nat where
  "boxHeaderSize = 8"

definition flagsMask :: uint32 where
  "flagsMask = 0x00ffffff"

text \<open>
  An \<open>io.Writer\<close>: the bytes it has taken so far and the room it has left. A \<open>Write\<close>
  that does not fit returns an error.
\<close>

record Writer =
  w_out :: "byte list"
  w_room :: nat

definition Write :: "byte list \<Rightarrow> Writer \<Rightarrow> error + Writer" where
  "Write p w =
     (if length p \<le> w_room w
      then Inr (w\<lparr>w_out := w_out w @ p, w_room := w_room w - length p\<rparr>)
      else Inl ErrWrite)"

text \<open>
  Modelled from the spec: the byte cursor of package \<open>bits\<close> is not among the sources.
  The spec gives it as a sequential writer over a byte buffer with fixed-width
  big-endian writes and zero-padding writes; the sources read its position
  (\<open>Offset\<close>, \<open>Bytes\<close>) and its accumulated error (\<open>AccError\<close>). A write that does not
  fit in the buffer, or that follows a failed one, writes nothing and leaves the
  accumulated error set.
\<close>

record SliceWriter =
  sw_len :: nat
  sw_bytes :: "byte list"
  sw_err :: bool

definition NewSliceWriter :: "nat \<Rightarrow> SliceWriter" where
  "NewSliceWriter n = \<lparr>sw_len = n, sw_bytes = [], sw_err = False\<rparr>"

definition sw_write :: "byte list \<Rightarrow> SliceWriter \<Rightarrow> SliceWriter" where
  "sw_write p sw =
     (if sw_err sw then sw
      else if sw_len sw < length (sw_bytes sw) + length p then sw\<lparr>sw_err := True\<rparr>
      else sw\<lparr>sw_bytes := sw_bytes sw @ p\<rparr>)"

definition WriteZeroBytes :: "nat \<Rightarrow> SliceWriter \<Rightarrow> SliceWriter" where
  "WriteZeroBytes n sw = sw_write (replicate n 0) sw"

definition WriteUint16 :: "uint16 \<Rightarrow> SliceWriter \<Rightarrow> SliceWriter" where
  "WriteUint16 v sw = sw_write (BigEndian_PutUint16 v) sw"

definition WriteUint32 :: "uint32 \<Rightarrow> SliceWriter \<Rightarrow> SliceWriter" where
  "WriteUint32 v sw = sw_write (BigEndian_PutUint32 v) sw"

definition AccError :: "SliceWriter \<Rightarrow> error option" where
  "AccError sw = (if sw_err sw then Some ErrSliceWriter else None)"

text \<open>
  Modelled from the spec: \<open>EncodeHeader\<close> and \<open>EncodeHeaderSW\<close> are not among the sources.
  They write the generic box header of the spec, the 4-byte big-endian size of the box
  and its 4-byte type tag; a size that the 4-byte field cannot hold is refused (the
  64-bit form of the header is not used by these boxes).
\<close>

definition tag_bytes :: "string \<Rightarrow> byte list" where
  "tag_bytes t = take 4 (map of_char t @ replicate 4 0)"

definition header_bytes :: "string \<Rightarrow> uint64 \<Rightarrow> error + byte list" where
  "header_bytes t sz =
     (if 2 ^ 32 \<le> unat sz then Inl ErrBoxTooBig
      else Inr (BigEndian_PutUint32 (ucast sz) @ tag_bytes t))"

definition EncodeHeader :: "string \<Rightarrow> uint64 \<Rightarrow> Writer \<Rightarrow> error + Writer" where
  "EncodeHeader t sz w = (case header_bytes t sz of Inl e \<Rightarrow> Inl e | Inr p \<Rightarrow> Write p w)"

definition EncodeHeaderSW :: "string \<Rightarrow> uint64 \<Rightarrow> SliceWriter \<Rightarrow> error + SliceWriter" where
  "EncodeHeaderSW t sz sw =
     (case header_bytes t sz of Inl e \<Rightarrow> Inl e | Inr p \<Rightarrow> Inr (sw_write p sw))"

section \<open>Sync sample box: decode, size, encode\<close>

text \<open>
  \<open>DecodeStss\<close>. Its first argument is what \<open>readBoxBody(r, hdr)\<close> returned: an error
  or the bytes of the body.
\<close>

function DecodeStss_loop :: "byte list \<Rightarrow> nat \<Rightarrow> nat \<Rightarrow> StssBox \<Rightarrow> error + StssBox" where
  "DecodeStss_loop data ec i b =
     (if i < ec then
        (case slice data (8 + 4 * i) (12 + 4 * i) of
           Inl e \<Rightarrow> Inl e
         | Inr p \<Rightarrow>
             DecodeStss_loop data ec (i + 1)
               (b\<lparr>SampleNumber := SampleNumber b @ [BigEndian_Uint32 p]\<rparr>))
      else Inr b)"
  by pat_completeness auto
termination
  by (relation "measure (\<lambda>(data, ec, i, b). ec - i)") auto

definition DecodeStss :: "error + byte list \<Rightarrow> error + StssBox" where
  "DecodeStss rb =
     (case rb of
        Inl err \<Rightarrow> Inl err
      | Inr data \<Rightarrow>
          (case slice data 0 4 of
             Inl e \<Rightarrow> Inl e
           | Inr p0 \<Rightarrow>
               (let versionAndFlags = BigEndian_Uint32 p0;
                    b = \<lparr>Version = ucast (drop_bit 24 versionAndFlags),
                         Flags = versionAndFlags AND flagsMask,
                         SampleNumber = []\<rparr>
                in case slice data 4 8 of
                     Inl e \<Rightarrow> Inl e
                   | Inr p1 \<Rightarrow> DecodeStss_loop data (unat (BigEndian_Uint32 p1)) 0 b)))"

text \<open>
  \<open>Size\<close> adds in Go's \<open>int\<close> and converts to \<open>uint64\<close>: the sum modulo \<open>2^64\<close>.
\<close>

definition Stss_Size :: "StssBox \<Rightarrow> uint64" where
  "Stss_Size b = of_nat (boxHeaderSize + 8 + length (SampleNumber b) * 4)"

definition Stss_EncodeSW :: "StssBox \<Rightarrow> SliceWriter \<Rightarrow> error + SliceWriter" where
  "Stss_EncodeSW b sw =
     (case EncodeHeaderSW ''stss'' (Stss_Size b) sw of
        Inl err \<Rightarrow> Inl err
      | Inr sw1 \<Rightarrow>
          (let versionAndFlags = push_bit 24 (ucast (Version b)) + Flags b;
               sw2 = WriteUint32 versionAndFlags sw1;
               sw3 = WriteUint32 (of_nat (length (SampleNumber b))) sw2;
               sw4 = fold WriteUint32 (SampleNumber b) sw3
           in case AccError sw4 of Some err \<Rightarrow> Inl err | None \<Rightarrow> Inr sw4))"

text \<open>
  \<open>Encode\<close> allocates a buffer of \<open>int(b.Size())\<close> bytes; \<open>make\<close> panics on a negative
  length.
\<close>

definition Stss_Encode :: "StssBox \<Rightarrow> Writer \<Rightarrow> error + Writer" where
  "Stss_Encode b w =
     (if 2 ^ 63 \<le> unat (Stss_Size b) then Inl PanicMakeslice
      else
        (case Stss_EncodeSW b (NewSliceWriter (unat (Stss_Size b))) of
           Inl err \<Rightarrow> Inl err
         | Inr sw \<Rightarrow> Write (sw_bytes sw) w))"


section \<open>Audio sample entry box\<close>

text \<open>
  Modelled from the spec: the \<open>Box\<close> interface and the types \<open>EsdsBox\<close> and \<open>SinfBox\<close>
  are declared outside the sources at hand. A box behind the interface is known here
  by what the audio sample entry asks of it: its \<open>Size()\<close>, and what its \<open>Encode\<close>
  writes or the error it returns (\<open>EncodeSW\<close> writes the same bytes). The
  encryption-scheme-information box records the original format tag in
  \<open>Frma.DataFormat\<close>. A box of any other Go type carries a tag of its own, which may
  be any string.
\<close>

record BoxImage =
  img_size :: uint64
  img_bytes :: "error + byte list"

record EsdsBox =
  esds_image :: BoxImage

record FrmaBox =
  DataFormat :: string

record SinfBox =
  Frma :: FrmaBox
  sinf_image :: BoxImage

record OtherBox =
  other_type :: string
  other_image :: BoxImage

datatype Box = AsEsds EsdsBox | AsSinf SinfBox | AsOther OtherBox

fun Box_Type :: "Box \<Rightarrow> string" where
  "Box_Type (AsEsds e) = ''esds''"
| "Box_Type (AsSinf s) = ''sinf''"
| "Box_Type (AsOther b) = other_type b"

fun box_image :: "Box \<Rightarrow> BoxImage" where
  "box_image (AsEsds e) = esds_image e"
| "box_image (AsSinf s) = sinf_image s"
| "box_image (AsOther b) = other_image b"

definition Box_Size :: "Box \<Rightarrow> uint64" where
  "Box_Size b = img_size (box_image b)"

definition Box_Encode :: "Box \<Rightarrow> Writer \<Rightarrow> error + Writer" where
  "Box_Encode b w = (case img_bytes (box_image b) of Inl err \<Rightarrow> Inl err | Inr p \<Rightarrow> Write p w)"

definition Box_EncodeSW :: "Box \<Rightarrow> SliceWriter \<Rightarrow> error + SliceWriter" where
  "Box_EncodeSW b sw =
     (case img_bytes (box_image b) of
        Inl err \<Rightarrow> Inl err
      | Inr p \<Rightarrow>
          (case AccError (sw_write p sw) of
             Some err \<Rightarrow> Inl err
           | None \<Rightarrow> Inr (sw_write p sw)))"

text \<open>
  The typed references \<open>Esds\<close> and \<open>Sinf\<close> are pointers to boxes that also sit in
  \<open>Children\<close>; no operation here writes through them, and they hold the box itself.
\<close>

record AudioSampleEntryBox =
  name :: string
  DataReferenceIndex :: uint16
  ChannelCount :: uint16
  SampleSize :: uint16
  SampleRate :: uint16
  Esds :: "EsdsBox option"
  Sinf :: "SinfBox option"
  Children :: "Box list"

definition NewAudioSampleEntryBox :: "string \<Rightarrow> AudioSampleEntryBox" where
  "NewAudioSampleEntryBox nm =
     \<lparr>name = nm, DataReferenceIndex = 1, ChannelCount = 0, SampleSize = 0, SampleRate = 0,
      Esds = None, Sinf = None, Children = []\<rparr>"

definition makeFixed32Uint :: "uint16 \<Rightarrow> uint32" where
  "makeFixed32Uint nr = push_bit 16 (ucast nr)"

definition makeUint16FromFixed32 :: "uint32 \<Rightarrow> uint16" where
  "makeUint16FromFixed32 nr = ucast (drop_bit 16 nr)"

text \<open>
  \<open>AddChild\<close>: the type assertions \<open>child.(*EsdsBox)\<close> and \<open>child.(*SinfBox)\<close> panic
  when the box behind the interface is of another type.
\<close>

definition AddChild :: "AudioSampleEntryBox \<Rightarrow> Box \<Rightarrow> error + AudioSampleEntryBox" where
  "AddChild a child =
     (if Box_Type child = ''esds'' then
        (case child of
           AsEsds e \<Rightarrow> Inr (a\<lparr>Esds := Some e, Children := Children a @ [child]\<rparr>)
         | _ \<Rightarrow> Inl PanicTypeAssertion)
      else if Box_Type child = ''sinf'' then
        (case child of
           AsSinf s \<Rightarrow> Inr (a\<lparr>Sinf := Some s, Children := Children a @ [child]\<rparr>)
         | _ \<Rightarrow> Inl PanicTypeAssertion)
      else Inr (a\<lparr>Children := Children a @ [child]\<rparr>))"

definition CreateAudioSampleEntryBox ::
  "string \<Rightarrow> uint16 \<Rightarrow> uint16 \<Rightarrow> uint16 \<Rightarrow> Box option \<Rightarrow> error + AudioSampleEntryBox" where
  "CreateAudioSampleEntryBox nm nrChannels sampleSize sampleRate child =
     (let a = \<lparr>name = nm, DataReferenceIndex = 1, ChannelCount = nrChannels,
                SampleSize = sampleSize, SampleRate = sampleRate,
                Esds = None, Sinf = None, Children = []\<rparr>
      in case child of None \<Rightarrow> Inr a | Some c \<Rightarrow> AddChild a c)"

definition nrAudioSampleBytesBeforeChildren :: nat where
  "nrAudioSampleBytesBeforeChildren = 36"

definition Size :: "AudioSampleEntryBox \<Rightarrow> uint64" where
  "Size a =
     foldl (\<lambda>totalSize child. totalSize + Box_Size child)
       (of_nat nrAudioSampleBytesBeforeChildren) (Children a)"

text \<open>The seven writes of the fixed fields, shared by \<open>Encode\<close> and \<open>EncodeSW\<close>.\<close>

definition write_fields :: "AudioSampleEntryBox \<Rightarrow> SliceWriter \<Rightarrow> SliceWriter" where
  "write_fields a sw =
     WriteUint32 (makeFixed32Uint (SampleRate a))
       (WriteZeroBytes 4
         (WriteUint16 (SampleSize a)
           (WriteUint16 (ChannelCount a)
             (WriteZeroBytes 8
               (WriteUint16 (DataReferenceIndex a)
                 (WriteZeroBytes 6 sw))))))"

fun encode_children :: "Box list \<Rightarrow> Writer \<Rightarrow> error + Writer" where
  "encode_children [] w = Inr w"
| "encode_children (child # rest) w =
     (case Box_Encode child w of Inl err \<Rightarrow> Inl err | Inr w' \<Rightarrow> encode_children rest w')"

fun encode_children_sw :: "Box list \<Rightarrow> SliceWriter \<Rightarrow> error + SliceWriter" where
  "encode_children_sw [] sw = Inr sw"
| "encode_children_sw (child # rest) sw =
     (case Box_EncodeSW child sw of
        Inl err \<Rightarrow> Inl err
      | Inr sw' \<Rightarrow> encode_children_sw rest sw')"

text \<open>
  \<open>Encode\<close>. The helper \<open>makebuf\<close> is not among the sources: the length of the buffer it
  returns for the box is the argument \<open>buflen\<close>. The writes into that buffer are not
  checked, and \<open>buf[:sw.Offset()]\<close> is what reached it.
\<close>

definition Encode :: "nat \<Rightarrow> AudioSampleEntryBox \<Rightarrow> Writer \<Rightarrow> error + Writer" where
  "Encode buflen a w =
     (case EncodeHeader (name a) (Size a) w of
        Inl err \<Rightarrow> Inl err
      | Inr w1 \<Rightarrow>
          (let sw = write_fields a (NewSliceWriter buflen)
           in case Write (sw_bytes sw) w1 of
                Inl err \<Rightarrow> Inl err
              | Inr w2 \<Rightarrow> encode_children (Children a) w2))"

text \<open>
  \<open>EncodeSW\<close> returns the error of the header or of a child, not the accumulated error
  of the writer, which stays with the writer for the caller to read.
\<close>

definition EncodeSW :: "AudioSampleEntryBox \<Rightarrow> SliceWriter \<Rightarrow> error + SliceWriter" where
  "EncodeSW a sw =
     (case EncodeHeaderSW (name a) (Size a) sw of
        Inl err \<Rightarrow> Inl err
      | Inr sw1 \<Rightarrow> encode_children_sw (Children a) (write_fields a sw1))"

text \<open>
  \<open>RemoveEncryption\<close>. The loop removes the first child whose tag is \<open>sinf\<close> and clears
  the reference; the tag and the result come from the reference read before the loop.
\<close>

function RemoveEncryption_loop :: "nat \<Rightarrow> AudioSampleEntryBox \<Rightarrow> AudioSampleEntryBox" where
  "RemoveEncryption_loop i a =
     (if i < length (Children a) then
        (if Box_Type (Children a ! i) = ''sinf''
         then a\<lparr>Children := take i (Children a) @ drop (i + 1) (Children a), Sinf := None\<rparr>
         else RemoveEncryption_loop (i + 1) a)
      else a)"
  by pat_completeness auto
termination
  by (relation "measure (\<lambda>(i, a). length (Children a) - i)") auto

definition RemoveEncryption ::
  "AudioSampleEntryBox \<Rightarrow> (error + SinfBox) \<times> AudioSampleEntryBox" where
  "RemoveEncryption a =
     (if name a \<noteq> ''enca'' then (Inl (ErrIsNotEncrypted (name a)), a)
      else
        (case Sinf a of
           None \<Rightarrow> (Inl ErrNoSinfBox, a)
         | Some sinf \<Rightarrow>
             (Inr sinf, (RemoveEncryption_loop 0 a)\<lparr>name := DataFormat (Frma sinf)\<rparr>)))"


section \<open>Decoding an audio sample entry\<close>

record boxHeader =
  hdr_name :: string
  hdr_size :: uint64

text \<open>
  Modelled from the spec: the byte cursor \<open>NewSliceReader\<close> is not among the sources.
  It reads big-endian integers and skips bytes, moving its position on. What a read
  past the end does is not stated; \<open>DecodeAudioSampleEntry\<close> below gives a body
  shorter than its 28 fixed bytes the outcome \<open>ErrShortBody\<close>, on which nothing that
  follows depends.
\<close>

record SliceReader =
  sr_slice :: "byte list"
  sr_pos :: nat

definition NewSliceReader :: "byte list \<Rightarrow> SliceReader" where
  "NewSliceReader data = \<lparr>sr_slice = data, sr_pos = 0\<rparr>"

definition SkipBytes :: "nat \<Rightarrow> SliceReader \<Rightarrow> SliceReader" where
  "SkipBytes n s = s\<lparr>sr_pos := sr_pos s + n\<rparr>"

definition ReadUint16 :: "SliceReader \<Rightarrow> uint16 \<times> SliceReader" where
  "ReadUint16 s =
     (BigEndian_Uint16 (take 2 (drop (sr_pos s) (sr_slice s))), s\<lparr>sr_pos := sr_pos s + 2\<rparr>)"

definition ReadUint32 :: "SliceReader \<Rightarrow> uint32 \<times> SliceReader" where
  "ReadUint32 s =
     (BigEndian_Uint32 (take 4 (drop (sr_pos s) (sr_slice s))), s\<lparr>sr_pos := sr_pos s + 4\<rparr>)"

definition RemainingBytes :: "SliceReader \<Rightarrow> byte list" where
  "RemainingBytes s = drop (sr_pos s) (sr_slice s)"

text \<open>
  The dispatcher \<open>DecodeBox\<close> is not among the sources and is an argument: from the
  position and the bytes left in the reader it gives an error (\<open>EOF\<close> at the end of the
  input) or a box, which may be \<open>nil\<close>, and the bytes it leaves in the reader.
\<close>

type_synonym DecodeBox = "uint64 \<Rightarrow> byte list \<Rightarrow> (error + Box option) \<times> byte list"

datatype loop_step =
    Next uint64 "byte list" AudioSampleEntryBox
  | Return "error + AudioSampleEntryBox"

text \<open>The two tests that end an iteration of the loop over the children.\<close>

definition check_pos ::
  "boxHeader \<Rightarrow> uint64 \<Rightarrow> uint64 \<Rightarrow> byte list \<Rightarrow> AudioSampleEntryBox \<Rightarrow> loop_step" where
  "check_pos hdr startPos pos restReader a =
     (if pos = startPos + hdr_size hdr then Return (Inr a)
      else if startPos + hdr_size hdr < pos then Return (Inl (ErrBadSize (hdr_name hdr)))
      else Next pos restReader a)"

text \<open>One iteration of the loop.\<close>

definition decode_child ::
  "DecodeBox \<Rightarrow> boxHeader \<Rightarrow> uint64 \<Rightarrow> uint64 \<Rightarrow> byte list \<Rightarrow> AudioSampleEntryBox
     \<Rightarrow> loop_step" where
  "decode_child decodeBox hdr startPos pos restReader a =
     (case decodeBox pos restReader of
        (Inl err, r) \<Rightarrow> if err = EOF then Return (Inr a) else Return (Inl err)
      | (Inr None, r) \<Rightarrow> check_pos hdr startPos pos r a
      | (Inr (Some box), r) \<Rightarrow>
          (case AddChild a box of
             Inl e \<Rightarrow> Return (Inl e)
           | Inr a' \<Rightarrow> check_pos hdr startPos (pos + Box_Size box) r a'))"

text \<open>The loop returns nothing (\<open>None\<close>) when it runs forever.\<close>

partial_function (option) decode_children ::
  "DecodeBox \<Rightarrow> boxHeader \<Rightarrow> uint64 \<Rightarrow> uint64 \<Rightarrow> byte list \<Rightarrow> AudioSampleEntryBox
     \<Rightarrow> (error + AudioSampleEntryBox) option" where
  "decode_children decodeBox hdr startPos pos restReader a =
     (case decode_child decodeBox hdr startPos pos restReader a of
        Return res \<Rightarrow> Some res
      | Next pos' r a' \<Rightarrow> decode_children decodeBox hdr startPos pos' r a')"

text \<open>
  \<open>DecodeAudioSampleEntry\<close>. The argument \<open>rb\<close> is what \<open>readBoxBody(r, hdr)\<close> returned.
\<close>

definition decode_fields :: "string \<Rightarrow> byte list \<Rightarrow> AudioSampleEntryBox \<times> SliceReader" where
  "decode_fields nm data =
     (let s = NewSliceReader data;
          a = NewAudioSampleEntryBox nm;
          s = SkipBytes 6 s;
          (v, s) = ReadUint16 s;
          a = a\<lparr>DataReferenceIndex := v\<rparr>;
          s = SkipBytes 8 s;
          (v, s) = ReadUint16 s;
          a = a\<lparr>ChannelCount := v\<rparr>;
          (v, s) = ReadUint16 s;
          a = a\<lparr>SampleSize := v\<rparr>;
          s = SkipBytes 4 s;
          (w, s) = ReadUint32 s;
          a = a\<lparr>SampleRate := makeUint16FromFixed32 w\<rparr>
      in (a, s))"

definition DecodeAudioSampleEntry ::
  "DecodeBox \<Rightarrow> boxHeader \<Rightarrow> uint64 \<Rightarrow> error + byte list
     \<Rightarrow> (error + AudioSampleEntryBox) option" where
  "DecodeAudioSampleEntry decodeBox hdr startPos rb =
     (case rb of
        Inl err \<Rightarrow> Some (Inl err)
      | Inr data \<Rightarrow>
          if length data < 28 then Some (Inl ErrShortBody)
          else
            (case decode_fields (hdr_name hdr) data of
               (a, s) \<Rightarrow>
                 decode_children decodeBox hdr startPos
                   (startPos + of_nat nrAudioSampleBytesBeforeChildren) (RemainingBytes s) a))"

section \<open>AVC byte streams\<close>

text \<open>
  Modelled from the spec: \<open>annexb.go\<close> is not among the sources, only its test table.
  The four functions below follow sections 4.4 to 4.6 of the spec. A start code is
  \<open>00 00 01\<close> or \<open>00 00 00 01\<close>; the bytes before the first one are not part of any
  unit; a NAL unit is the stretch of bytes between one start code and the next, or the
  end of the buffer; it has a 1-byte header, so an empty stretch is no unit. A result
  with no unit in it is absent (\<open>None\<close>, Go's \<open>nil\<close>), not an empty sequence.
\<close>

fun next_start_code :: "byte list \<Rightarrow> (byte list \<times> byte list) option" where
  "next_start_code [] = None"
| "next_start_code (b # bs) =
     (if take 4 (b # bs) = [0, 0, 0, 1] then Some ([], drop 4 (b # bs))
      else if take 3 (b # bs) = [0, 0, 1] then Some ([], drop 3 (b # bs))
      else (case next_start_code bs of
              None \<Rightarrow> None
            | Some (u, r) \<Rightarrow> Some (b # u, r)))"

function split_units :: "byte list \<Rightarrow> byte list list" where
  "split_units bs =
     (case next_start_code bs of
        None \<Rightarrow> [bs]
      | Some (u, r) \<Rightarrow> u # split_units r)"
  by pat_completeness auto
termination
proof (relation "measure length")
  show "wf (measure length)"
    by simp
next
  fix bs :: "byte list" and x u r
  assume found: "next_start_code bs = Some x" "(u, r) = x"
  have "next_start_code cs = Some (v, t) \<Longrightarrow> length t < length cs" for cs v t
    by (induction cs arbitrary: v t) (auto split: if_splits option.splits)
  with found show "(r, bs) \<in> measure length"
    by auto
qed

definition absent_if_empty :: "'a list \<Rightarrow> 'a list option" where
  "absent_if_empty xs = (if xs = [] then None else Some xs)"

definition ExtractNalusFromByteStream :: "byte list \<Rightarrow> byte list list option" where
  "ExtractNalusFromByteStream data =
     (case next_start_code data of
        None \<Rightarrow> None
      | Some (noise, r) \<Rightarrow> absent_if_empty (filter (\<lambda>u. u \<noteq> []) (split_units r)))"

definition found_nalus :: "byte list \<Rightarrow> byte list list" where
  "found_nalus data = (case ExtractNalusFromByteStream data of None \<Rightarrow> [] | Some us \<Rightarrow> us)"

text \<open>
  To sample format: each unit after its byte count in four big-endian bytes. The result
  is a byte slice, the empty list when there is no unit.
\<close>

definition ConvertByteStreamToNaluSample :: "byte list \<Rightarrow> byte list" where
  "ConvertByteStreamToNaluSample stream =
     concat (map (\<lambda>u. BigEndian_PutUint32 (of_nat (length u)) @ u) (found_nalus stream))"

text \<open>
  To byte stream: for each unit its 4-byte length is read, and the canonical start code
  and the unit are emitted. The spec says nothing of a buffer that ends inside a length
  field or inside a unit: that is \<open>None\<close> here.
\<close>

function ConvertSampleToByteStream :: "byte list \<Rightarrow> byte list option" where
  "ConvertSampleToByteStream sample =
     (if sample = [] then Some []
      else if length sample < 4 + unat (BigEndian_Uint32 (take 4 sample)) then None
      else
        (case ConvertSampleToByteStream (drop (4 + unat (BigEndian_Uint32 (take 4 sample))) sample) of
           None \<Rightarrow> None
         | Some rest \<Rightarrow>
             Some ([0, 0, 0, 1]
                   @ take (unat (BigEndian_Uint32 (take 4 sample))) (drop 4 sample) @ rest)))"
  by pat_completeness auto
termination
  by (relation "measure length") auto

text \<open>The type of a NAL unit: the low five bits of its first byte.\<close>

fun nalu_type :: "byte list \<Rightarrow> byte option" where
  "nalu_type [] = None"
| "nalu_type (b # bs) = Some (b AND 0x1f)"

definition GetParameterSetsFromByteStream ::
  "byte list \<Rightarrow> byte list list option \<times> byte list list option" where
  "GetParameterSetsFromByteStream data =
     (absent_if_empty (filter (\<lambda>u. nalu_type u = Some 7) (found_nalus data)),
      absent_if_empty (filter (\<lambda>u. nalu_type u = Some 8) (found_nalus data)))"


section \<open>Notions used to state the properties\<close>

text \<open>
  The reference that \<open>AddChild\<close> leaves in \<open>Sinf\<close> for a sequence of children: the last
  of them that is a \<open>SinfBox\<close>.
\<close>

fun typed_sinf :: "Box list \<Rightarrow> SinfBox option" where
  "typed_sinf [] = None"
| "typed_sinf (c # cs) =
     (case typed_sinf cs of
        Some s \<Rightarrow> Some s
      | None \<Rightarrow> (case c of AsSinf s \<Rightarrow> Some s | _ \<Rightarrow> None))"


text \<open>The 28 bytes of the fixed fields, in the layout of the spec.\<close>

definition fixed_fields :: "AudioSampleEntryBox \<Rightarrow> byte list" where
  "fixed_fields a =
     replicate 6 0 @ BigEndian_PutUint16 (DataReferenceIndex a) @ replicate 8 0
     @ BigEndian_PutUint16 (ChannelCount a) @ BigEndian_PutUint16 (SampleSize a)
     @ replicate 4 0 @ BigEndian_PutUint32 (makeFixed32Uint (SampleRate a))"


text \<open>
  A child keeps the contract of the \<open>Box\<close> interface when the bytes it encodes to are as
  many as its \<open>Size()\<close> says.
\<close>

definition honest :: "Box \<Rightarrow> bool" where
  "honest c = (case img_bytes (box_image c) of Inl err \<Rightarrow> True | Inr p \<Rightarrow> length p = unat (Box_Size c))"

definition children_total :: "AudioSampleEntryBox \<Rightarrow> nat" where
  "children_total a = sum_list (map (\<lambda>c. unat (Box_Size c)) (Children a))"


text \<open>
  The states the loop over the children passes through: \<open>iterates\<close> relates a state
  (position, bytes left in the reader, the entry so far) to every state that the loop
  reaches from it at the top of an iteration.
\<close>

inductive iterates ::
  "DecodeBox \<Rightarrow> boxHeader \<Rightarrow> uint64 \<Rightarrow> uint64 \<times> byte list \<times> AudioSampleEntryBox
     \<Rightarrow> uint64 \<times> byte list \<times> AudioSampleEntryBox \<Rightarrow> bool"
  for decodeBox hdr startPos where
    start: "iterates decodeBox hdr startPos s s"
  | again: "iterates decodeBox hdr startPos s (pos, r, a) \<Longrightarrow>
            decode_child decodeBox hdr startPos pos r a = Next pos' r' a' \<Longrightarrow>
            iterates decodeBox hdr startPos s (pos', r', a')"

text \<open>
  Annex-B buffers as the spec frames them: a start code occurs in the buffer only as the
  delimiter of a unit. A buffer is given by its parts, each a start code and the unit
  that follows it; it is well formed when every unit is non-empty (it has a 1-byte
  header), holds no start code, does not end in a zero byte when another part follows
  (the zero would run into the next start code), and is short enough for the 4-byte
  length field of the sample format.
\<close>

fun contains_start_code :: "byte list \<Rightarrow> bool" where
  "contains_start_code [] = False"
| "contains_start_code (b # bs) = (take 3 (b # bs) = [0, 0, 1] \<or> contains_start_code bs)"

definition is_start_code :: "byte list \<Rightarrow> bool" where
  "is_start_code sc = (sc = [0, 0, 1] \<or> sc = [0, 0, 0, 1])"

fun annexb :: "(byte list \<times> byte list) list \<Rightarrow> byte list" where
  "annexb [] = []"
| "annexb ((sc, u) # rest) = sc @ u @ annexb rest"

fun well_formed :: "(byte list \<times> byte list) list \<Rightarrow> bool" where
  "well_formed [] = True"
| "well_formed ((sc, u) # rest) =
     (is_start_code sc \<and> u \<noteq> [] \<and> length u < 2 ^ 32 \<and> \<not> contains_start_code u
      \<and> (rest = [] \<or> last u \<noteq> 0) \<and> well_formed rest)"

section \<open>Example boxes\<close>

definition example_esds :: Box where
  "example_esds =
     AsEsds \<lparr>esds_image = \<lparr>img_size = 12,
                            img_bytes = Inr [0, 0, 0, 12, 101, 115, 100, 115, 0, 0, 0, 0]\<rparr>\<rparr>"

definition example_mp4a :: AudioSampleEntryBox where
  "example_mp4a =
     \<lparr>name = ''mp4a'', DataReferenceIndex = 1, ChannelCount = 2, SampleSize = 16,
      SampleRate = 48000, Esds = None, Sinf = None, Children = [example_esds]\<rparr>"

definition example_stss :: StssBox where
  "example_stss = \<lparr>Version = 0, Flags = 0, SampleNumber = [1, 5, 9]\<rparr>"

definition example_writer :: Writer where
  "example_writer = \<lparr>w_out = [], w_room = 100\<rparr>"


text \<open>
  An encrypted audio entry to which two \<open>sinf\<close> boxes were added: \<open>AddChild\<close> left the
  second one in \<open>Sinf\<close>.
\<close>

definition example_sinf1 :: SinfBox where
  "example_sinf1 = \<lparr>Frma = \<lparr>DataFormat = ''mp4a''\<rparr>, sinf_image = \<lparr>img_size = 8, img_bytes = Inr [0,0,0,8,115,105,110,102]\<rparr>\<rparr>"

definition example_sinf2 :: SinfBox where
  "example_sinf2 = \<lparr>Frma = \<lparr>DataFormat = ''ac-3''\<rparr>, sinf_image = \<lparr>img_size = 8, img_bytes = Inr [0,0,0,8,115,105,110,102]\<rparr>\<rparr>"

definition example_enca :: AudioSampleEntryBox where
  "example_enca = (NewAudioSampleEntryBox ''enca'')\<lparr>Sinf := Some example_sinf2, Children := [AsSinf example_sinf1, AsSinf example_sinf2]\<rparr>"

text \<open>
  A dispatcher that finds the box \<open>example_esds\<close> in every 12 bytes, and the end of the
  input when none are left; the 28 bytes of an audio sample entry with the sample rate
  field \<open>BB 80 12 34\<close>, and the entry they decode to.
\<close>

definition example_decodeBox :: DecodeBox where
  "example_decodeBox pos r =
     (if r = [] then (Inl EOF, []) else (Inr (Some example_esds), drop 12 r))"

definition example_body :: "byte list" where
  "example_body =
     [0, 0, 0, 0, 0, 0, 0, 1, 0, 0, 0, 0, 0, 0, 0, 0, 0, 2, 0, 16, 0, 0, 0, 0,
      0xBB, 0x80, 0x12, 0x34]"

definition example_decoded :: AudioSampleEntryBox where
  "example_decoded =
     \<lparr>name = ''mp4a'', DataReferenceIndex = 1, ChannelCount = 2, SampleSize = 16,
      SampleRate = 0xBB80, Esds = None, Sinf = None, Children = []\<rparr>"

text \<open>
  The byte stream of the test \<open>TestGetParameterSetsFromByteStream\<close>: an access unit
  delimiter, a sequence parameter set, a picture parameter set and two IDR units.
\<close>

definition example_stream :: "byte list" where
  "example_stream =
     [0, 0, 0, 1, 9, 2,
      0, 0, 0, 1, 7, 5, 4,
      0, 0, 0, 1, 8, 1, 2,
      0, 0, 0, 1, 5, 0,
      0, 0, 0, 1, 5, 0]"

section \<open>The sync sample test\<close>

declare IsSyncSample_loop.simps [simp del]
declare DecodeStss_loop.simps [simp del]
declare RemoveEncryption_loop.simps [simp del]
declare split_units.simps [simp del]
declare ConvertSampleToByteStream.simps [simp del]

lemma IsSyncSample_loop_finds:
  "sorted xs \<Longrightarrow> i \<le> j \<Longrightarrow> j \<le> length xs \<Longrightarrow> (\<forall>k<i. xs ! k < n) \<Longrightarrow>
   (\<forall>k. j \<le> k \<and> k < length xs \<longrightarrow> n \<le> xs ! k) \<Longrightarrow>
   \<exists>r. IsSyncSample_loop xs n i j = Inr r \<and> r \<le> length xs \<and> (\<forall>k<r. xs ! k < n) \<and>
       (\<forall>k. r \<le> k \<and> k < length xs \<longrightarrow> n \<le> xs ! k)"
proof (induction xs n i j rule: IsSyncSample_loop.induct)
  case (1 xs n i j)
  show ?case
  proof (cases "i < j")
    case False
    with 1(3-) show ?thesis
      by (subst IsSyncSample_loop.simps) auto
  next
    case True
    let ?h = "(i + j) div 2"
    from True 1(5) have hlt: "?h < length xs" and ih: "i \<le> ?h" and hj: "?h < j"
      by auto
    show ?thesis
    proof (cases "xs ! ?h < n")
      case below: True
      have low: "\<forall>k<?h + 1. xs ! k < n"
      proof (intro allI impI)
        fix k assume "k < ?h + 1"
        then have "xs ! k \<le> xs ! ?h"
          using 1(3) hlt by (auto intro: sorted_nth_mono)
        with below show "xs ! k < n"
          by simp
      qed
      have "\<exists>r. IsSyncSample_loop xs n (?h + 1) j = Inr r \<and> r \<le> length xs \<and>
              (\<forall>k<r. xs ! k < n) \<and> (\<forall>k. r \<le> k \<and> k < length xs \<longrightarrow> n \<le> xs ! k)"
        using 1(1)[OF True _ below 1(3) _ 1(5) low 1(7)] hlt hj by auto
      then show ?thesis
        using True hlt below by (subst IsSyncSample_loop.simps) simp
    next
      case above: False
      have high: "\<forall>k. ?h \<le> k \<and> k < length xs \<longrightarrow> n \<le> xs ! k"
      proof (intro allI impI)
        fix k assume "?h \<le> k \<and> k < length xs"
        then have "xs ! ?h \<le> xs ! k"
          using 1(3) by (auto intro: sorted_nth_mono)
        with above show "n \<le> xs ! k"
          by simp
      qed
      have "\<exists>r. IsSyncSample_loop xs n i ?h = Inr r \<and> r \<le> length xs \<and>
              (\<forall>k<r. xs ! k < n) \<and> (\<forall>k. r \<le> k \<and> k < length xs \<longrightarrow> n \<le> xs ! k)"
        using 1(2)[OF True _ above 1(3) ih _ 1(6) high] hlt by auto
      then show ?thesis
        using True hlt above by (subst IsSyncSample_loop.simps) simp
    qed
  qed
qed

lemma IsSyncSample_sorted:
  assumes "sorted (SampleNumber b)"
  shows "IsSyncSample b n = (Inr (n \<in> set (SampleNumber b)), b)"
proof -
  let ?xs = "SampleNumber b"
  have "\<exists>r. IsSyncSample_loop ?xs n 0 (length ?xs) = Inr r \<and> r \<le> length ?xs \<and>
          (\<forall>k<r. ?xs ! k < n) \<and> (\<forall>k. r \<le> k \<and> k < length ?xs \<longrightarrow> n \<le> ?xs ! k)"
    by (rule IsSyncSample_loop_finds[OF assms]) auto
  then obtain r where r: "IsSyncSample_loop ?xs n 0 (length ?xs) = Inr r" "r \<le> length ?xs"
    "\<forall>k<r. ?xs ! k < n" "\<forall>k. r \<le> k \<and> k < length ?xs \<longrightarrow> n \<le> ?xs ! k"
    by blast
  have "(r < length ?xs \<and> ?xs ! r = n) = (n \<in> set ?xs)"
  proof
    assume "r < length ?xs \<and> ?xs ! r = n"
    then show "n \<in> set ?xs"
      by (auto simp: in_set_conv_nth)
  next
    assume "n \<in> set ?xs"
    then obtain k where k: "k < length ?xs" "?xs ! k = n"
      by (auto simp: in_set_conv_nth)
    with r(3) have "r \<le> k"
      by (metis less_irrefl not_le)
    then have "?xs ! r \<le> ?xs ! k"
      using assms k(1) by (auto intro: sorted_nth_mono)
    moreover have "n \<le> ?xs ! r"
      using r(4) \<open>r \<le> k\<close> k(1) by auto
    ultimately show "r < length ?xs \<and> ?xs ! r = n"
      using k \<open>r \<le> k\<close> by auto
  qed
  with r(1) show ?thesis
    by (simp add: IsSyncSample_def)
qed

text \<open>
  Claim C2. For a sync sample box whose sample numbers are strictly ascending and any
  sample number \<open>n\<close>, \<open>IsSyncSample\<close> answers true exactly when \<open>n\<close> is one of them, and
  leaves the box as it was; for a box with no sample numbers the answer is always false.
\<close>

theorem IsSyncSample_iff_member:
  assumes "sorted_wrt (<) (SampleNumber b)"
  shows "IsSyncSample b n = (Inr (n \<in> set (SampleNumber b)), b)
         \<and> (SampleNumber b = [] \<longrightarrow> IsSyncSample b n = (Inr False, b))"
proof -
  from assms have "sorted (SampleNumber b)"
    by (rule strict_sorted_imp_sorted)
  then have "IsSyncSample b n = (Inr (n \<in> set (SampleNumber b)), b)"
    by (rule IsSyncSample_sorted)
  then show ?thesis
    by auto
qed

theorem IsSyncSample_iff_member_witness:
  "sorted_wrt (<) [1, 5, 9 :: uint32]
   \<and> IsSyncSample \<lparr>Version = 0, Flags = 0, SampleNumber = [1, 5, 9]\<rparr> 5
       = (Inr True, \<lparr>Version = 0, Flags = 0, SampleNumber = [1, 5, 9]\<rparr>)
   \<and> IsSyncSample \<lparr>Version = 0, Flags = 0, SampleNumber = [1, 5, 9]\<rparr> 6
       = (Inr False, \<lparr>Version = 0, Flags = 0, SampleNumber = [1, 5, 9]\<rparr>)
   \<and> IsSyncSample \<lparr>Version = 0, Flags = 0, SampleNumber = []\<rparr> 6
       = (Inr False, \<lparr>Version = 0, Flags = 0, SampleNumber = []\<rparr>)"
  using IsSyncSample_iff_member [of "\<lparr>Version = 0, Flags = 0, SampleNumber = [1, 5, 9]\<rparr>" 5]
    IsSyncSample_iff_member [of "\<lparr>Version = 0, Flags = 0, SampleNumber = [1, 5, 9]\<rparr>" 6]
    IsSyncSample_iff_member [of "\<lparr>Version = 0, Flags = 0, SampleNumber = []\<rparr>" 6]
  by simp

section \<open>Decoding a truncated sync sample box\<close>

text \<open>
  A body shorter than its two 4-byte fields, or shorter than the entries its entry count
  declares, ends \<open>DecodeStss\<close> in the panic of a slice expression.
\<close>

lemma DecodeStss_loop_short:
  "length data < 8 + 4 * ec \<Longrightarrow> 8 + 4 * i \<le> length data \<Longrightarrow>
   DecodeStss_loop data ec i b = Inl PanicSliceBounds"
proof (induction data ec i b rule: DecodeStss_loop.induct)
  case (1 data ec i b)
  from 1(2,3) have lt: "i < ec" by simp
  show ?case
  proof (cases "12 + 4 * i \<le> length data")
    case True
    then have s: "slice data (8 + 4 * i) (12 + 4 * i) = Inr (take 4 (drop (8 + 4 * i) data))"
      by (simp add: slice_def)
    have "DecodeStss_loop data ec (i + 1)
            (b\<lparr>SampleNumber := SampleNumber b @ [BigEndian_Uint32 (take 4 (drop (8 + 4 * i) data))]\<rparr>)
          = Inl PanicSliceBounds"
      using True by (intro 1(1)[OF lt s 1(2)]) simp
    with lt s show ?thesis
      by (subst DecodeStss_loop.simps) simp
  next
    case False
    then have "slice data (8 + 4 * i) (12 + 4 * i) = Inl PanicSliceBounds"
      by (simp add: slice_def)
    with lt show ?thesis
      by (subst DecodeStss_loop.simps) simp
  qed
qed

lemma DecodeStss_short_body:
  assumes "length data < 8 \<or> length data < 8 + 4 * unat (BigEndian_Uint32 (take 4 (drop 4 data)))"
  shows "DecodeStss (Inr data) = Inl PanicSliceBounds"
proof (cases "length data < 8")
  case True
  then show ?thesis
    by (auto simp: DecodeStss_def slice_def Let_def)
next
  case False
  with assms have "length data < 8 + 4 * unat (BigEndian_Uint32 (take 4 (drop 4 data)))"
    by simp
  from DecodeStss_loop_short[OF this, of 0] False show ?thesis
    by (simp add: DecodeStss_def slice_def Let_def)
qed

text \<open>
  Claim C6. A body of eight bytes whose entry count is 1 holds no sample number: the
  read of the first entry is the slice \<open>data[8:12]\<close> of an 8-byte slice, and
  \<open>DecodeStss\<close> ends in the run-time panic of that slice expression; no error is
  returned to the caller.
\<close>

theorem DecodeStss_truncated_panics:
  "DecodeStss (Inr [0, 0, 0, 0, 0, 0, 0, 1]) = Inl PanicSliceBounds
   \<and> is_panic PanicSliceBounds"
  by (simp add: DecodeStss_def slice_def DecodeStss_loop.simps)

section \<open>Encoded length and \<open>Size\<close>\<close>

lemma Write_out: "Write p w = Inr w' \<Longrightarrow> w_out w' = w_out w @ p"
  by (auto simp: Write_def split: if_splits)

lemma sw_write_ok:
  "\<not> sw_err (sw_write p sw) \<Longrightarrow> sw_bytes (sw_write p sw) = sw_bytes sw @ p \<and> \<not> sw_err sw"
  by (auto simp: sw_write_def split: if_splits)

lemma sw_write_room:
  "\<not> sw_err sw \<Longrightarrow> length (sw_bytes sw) + length p \<le> sw_len sw \<Longrightarrow>
   sw_write p sw = sw\<lparr>sw_bytes := sw_bytes sw @ p\<rparr>"
  by (auto simp: sw_write_def)

lemma length_fixed_fields: "length (fixed_fields a) = 28"
  by (simp add: fixed_fields_def BigEndian_PutUint16_def BigEndian_PutUint32_def)

lemma write_fields_ok:
  assumes "\<not> sw_err (write_fields a sw)"
  shows "sw_bytes (write_fields a sw) = sw_bytes sw @ fixed_fields a \<and> \<not> sw_err sw"
proof -
  let ?s1 = "WriteZeroBytes 6 sw"
  let ?s2 = "WriteUint16 (DataReferenceIndex a) ?s1"
  let ?s3 = "WriteZeroBytes 8 ?s2"
  let ?s4 = "WriteUint16 (ChannelCount a) ?s3"
  let ?s5 = "WriteUint16 (SampleSize a) ?s4"
  let ?s6 = "WriteZeroBytes 4 ?s5"
  let ?s7 = "WriteUint32 (makeFixed32Uint (SampleRate a)) ?s6"
  have e7: "\<not> sw_err ?s7" using assms by (simp add: write_fields_def)
  have s7: "sw_bytes ?s7 = sw_bytes ?s6 @ BigEndian_PutUint32 (makeFixed32Uint (SampleRate a))" and e6: "\<not> sw_err ?s6"
    using sw_write_ok[OF e7[unfolded WriteUint32_def]] by (simp_all add: WriteUint32_def)
  have s6: "sw_bytes ?s6 = sw_bytes ?s5 @ replicate 4 0" and e5: "\<not> sw_err ?s5"
    using sw_write_ok[OF e6[unfolded WriteZeroBytes_def]] by (simp_all add: WriteZeroBytes_def)
  have s5: "sw_bytes ?s5 = sw_bytes ?s4 @ BigEndian_PutUint16 (SampleSize a)" and e4: "\<not> sw_err ?s4"
    using sw_write_ok[OF e5[unfolded WriteUint16_def]] by (simp_all add: WriteUint16_def)
  have s4: "sw_bytes ?s4 = sw_bytes ?s3 @ BigEndian_PutUint16 (ChannelCount a)" and e3: "\<not> sw_err ?s3"
    using sw_write_ok[OF e4[unfolded WriteUint16_def]] by (simp_all add: WriteUint16_def)
  have s3: "sw_bytes ?s3 = sw_bytes ?s2 @ replicate 8 0" and e2: "\<not> sw_err ?s2"
    using sw_write_ok[OF e3[unfolded WriteZeroBytes_def]] by (simp_all add: WriteZeroBytes_def)
  have s2: "sw_bytes ?s2 = sw_bytes ?s1 @ BigEndian_PutUint16 (DataReferenceIndex a)" and e1: "\<not> sw_err ?s1"
    using sw_write_ok[OF e2[unfolded WriteUint16_def]] by (simp_all add: WriteUint16_def)
  have s1: "sw_bytes ?s1 = sw_bytes sw @ replicate 6 0" and e0: "\<not> sw_err sw"
    using sw_write_ok[OF e1[unfolded WriteZeroBytes_def]] by (simp_all add: WriteZeroBytes_def)
  show ?thesis
    using s1 s2 s3 s4 s5 s6 s7 e0 by (simp add: write_fields_def fixed_fields_def)
qed

lemma write_fields_new:
  assumes "28 \<le> buflen"
  shows "sw_bytes (write_fields a (NewSliceWriter buflen)) = fixed_fields a"
  using assms
  by (simp add: write_fields_def NewSliceWriter_def WriteZeroBytes_def WriteUint16_def
      WriteUint32_def sw_write_def fixed_fields_def BigEndian_PutUint16_def BigEndian_PutUint32_def)

lemma encode_children_out:
  "encode_children cs w = Inr w' \<Longrightarrow> \<forall>c\<in>set cs. honest c \<Longrightarrow>
   \<exists>p. w_out w' = w_out w @ p \<and> length p = sum_list (map (\<lambda>c. unat (Box_Size c)) cs)"
proof (induction cs arbitrary: w)
  case Nil
  then show ?case by simp
next
  case (Cons c cs)
  from Cons.prems(1) obtain w1 where w1: "Box_Encode c w = Inr w1" "encode_children cs w1 = Inr w'"
    by (auto split: sum.splits)
  from w1(1) obtain q where q: "img_bytes (box_image c) = Inr q" "w_out w1 = w_out w @ q"
    by (auto simp: Box_Encode_def split: sum.splits dest: Write_out)
  with Cons.prems(2) have lq: "length q = unat (Box_Size c)" by (simp add: honest_def)
  from Cons.IH[OF w1(2)] Cons.prems(2) obtain p where
    "w_out w' = w_out w1 @ p" "length p = sum_list (map (\<lambda>c. unat (Box_Size c)) cs)" by auto
  with q lq show ?case by simp
qed

lemma encode_children_sw_out:
  "encode_children_sw cs sw = Inr sw' \<Longrightarrow> \<not> sw_err sw' \<Longrightarrow> \<forall>c\<in>set cs. honest c \<Longrightarrow>
   \<not> sw_err sw \<and> (\<exists>p. sw_bytes sw' = sw_bytes sw @ p \<and> length p = sum_list (map (\<lambda>c. unat (Box_Size c)) cs))"
proof (induction cs arbitrary: sw)
  case Nil
  then show ?case by simp
next
  case (Cons c cs)
  from Cons.prems(1) obtain sw1 where w1: "Box_EncodeSW c sw = Inr sw1" "encode_children_sw cs sw1 = Inr sw'"
    by (auto split: sum.splits)
  from w1(1) obtain q where q: "img_bytes (box_image c) = Inr q" "sw1 = sw_write q sw" "\<not> sw_err sw1"
    by (auto simp: Box_EncodeSW_def AccError_def split: sum.splits option.splits if_splits)
  then have q2: "sw_bytes sw1 = sw_bytes sw @ q" "\<not> sw_err sw" using sw_write_ok[of q sw] by auto
  from q Cons.prems(3) have lq: "length q = unat (Box_Size c)" by (simp add: honest_def)
  from Cons.IH[OF w1(2) Cons.prems(2)] Cons.prems(3) obtain p where
    "sw_bytes sw' = sw_bytes sw1 @ p" "length p = sum_list (map (\<lambda>c. unat (Box_Size c)) cs)" by auto
  with q2 lq show ?case by simp
qed

lemma unat_foldl_Size:
  "unat (foldl (\<lambda>totalSize child. totalSize + Box_Size child) acc cs)
     = (unat acc + sum_list (map (\<lambda>c. unat (Box_Size c)) cs)) mod 2 ^ 64"
proof (induction cs arbitrary: acc)
  case Nil
  have "unat acc < 2 ^ 64" using unsigned_less[of acc] by simp
  then show ?case by simp
next
  case (Cons c cs)
  show ?case
    by (simp add: Cons.IH unat_word_ariths mod_add_left_eq add.assoc)
qed

lemma unat_Size: "unat (Size a) = (36 + children_total a) mod 2 ^ 64"
  by (simp add: Size_def unat_foldl_Size nrAudioSampleBytesBeforeChildren_def children_total_def)

lemma header_bytes_length: "header_bytes t sz = Inr p \<Longrightarrow> length p = 8"
  by (auto simp: header_bytes_def BigEndian_PutUint32_def tag_bytes_def split: if_splits)

lemma Encode_out:
  assumes "Encode buflen a w = Inr w'" "28 \<le> buflen" "\<forall>c\<in>set (Children a). honest c"
  shows "\<exists>p. w_out w' = w_out w @ p \<and> length p = 36 + children_total a"
proof -
  from assms(1) obtain h w1 w2 where
    h: "header_bytes (name a) (Size a) = Inr h" "Write h w = Inr w1"
    and f: "Write (sw_bytes (write_fields a (NewSliceWriter buflen))) w1 = Inr w2"
    and c: "encode_children (Children a) w2 = Inr w'"
    by (auto simp: Encode_def EncodeHeader_def Let_def split: sum.splits)
  from h have 1: "w_out w1 = w_out w @ h" "length h = 8"
    by (auto dest: Write_out header_bytes_length)
  from f assms(2) have 2: "w_out w2 = w_out w1 @ fixed_fields a"
    by (auto dest: Write_out simp: write_fields_new)
  from encode_children_out[OF c assms(3)] obtain p where
    "w_out w' = w_out w2 @ p" "length p = children_total a" by (auto simp: children_total_def)
  with 1 2 show ?thesis by (simp add: length_fixed_fields)
qed

lemma EncodeSW_out:
  assumes "EncodeSW a sw = Inr sw'" "\<not> sw_err sw'" "\<forall>c\<in>set (Children a). honest c"
  shows "\<exists>p. sw_bytes sw' = sw_bytes sw @ p \<and> length p = 36 + children_total a"
proof -
  from assms(1) obtain h where
    h: "header_bytes (name a) (Size a) = Inr h"
    and c: "encode_children_sw (Children a) (write_fields a (sw_write h sw)) = Inr sw'"
    by (auto simp: EncodeSW_def EncodeHeaderSW_def split: sum.splits)
  from encode_children_sw_out[OF c assms(2,3)] obtain p where
    p: "\<not> sw_err (write_fields a (sw_write h sw))"
    "sw_bytes sw' = sw_bytes (write_fields a (sw_write h sw)) @ p" "length p = children_total a"
    by (auto simp: children_total_def)
  from write_fields_ok[OF p(1)] have
    2: "sw_bytes (write_fields a (sw_write h sw)) = sw_bytes (sw_write h sw) @ fixed_fields a"
    "\<not> sw_err (sw_write h sw)" by auto
  from sw_write_ok[OF 2(2)] have 1: "sw_bytes (sw_write h sw) = sw_bytes sw @ h" by simp
  from h have "length h = 8" by (rule header_bytes_length)
  with 1 2 p show ?thesis by (simp add: length_fixed_fields)
qed

lemma fold_WriteUint32_ok:
  "\<not> sw_err (fold WriteUint32 xs sw) \<Longrightarrow>
     \<not> sw_err sw \<and> (\<exists>p. sw_bytes (fold WriteUint32 xs sw) = sw_bytes sw @ p \<and> length p = 4 * length xs)
     \<and> sw_len (fold WriteUint32 xs sw) = sw_len sw"
proof (induction xs arbitrary: sw)
  case Nil
  then show ?case by simp
next
  case (Cons x xs)
  from Cons.IH[OF Cons.prems[simplified]] obtain p where
    p: "\<not> sw_err (WriteUint32 x sw)" "sw_bytes (fold WriteUint32 xs (WriteUint32 x sw)) = sw_bytes (WriteUint32 x sw) @ p"
      "length p = 4 * length xs" "sw_len (fold WriteUint32 xs (WriteUint32 x sw)) = sw_len (WriteUint32 x sw)" by auto
  from p(1) have "sw_bytes (WriteUint32 x sw) = sw_bytes sw @ BigEndian_PutUint32 x" "\<not> sw_err sw"
    "sw_len (WriteUint32 x sw) = sw_len sw"
    by (auto simp: WriteUint32_def sw_write_def split: if_splits)
  with p show ?case by (simp add: BigEndian_PutUint32_def)
qed

lemma Stss_EncodeSW_out:
  assumes "Stss_EncodeSW b sw = Inr sw'"
  shows "\<not> sw_err sw' \<and> sw_len sw' = sw_len sw \<and> (\<exists>p. sw_bytes sw' = sw_bytes sw @ p \<and> length p = 16 + 4 * length (SampleNumber b))"
proof -
  let ?vf = "push_bit 24 (ucast (Version b)) + Flags b"
  from assms obtain h where h: "header_bytes ''stss'' (Stss_Size b) = Inr h"
    and sw': "sw' = fold WriteUint32 (SampleNumber b) (WriteUint32 (of_nat (length (SampleNumber b))) (WriteUint32 ?vf (sw_write h sw)))"
    and e: "\<not> sw_err sw'"
    by (auto simp: Stss_EncodeSW_def EncodeHeaderSW_def Let_def AccError_def split: sum.splits option.splits if_splits)
  let ?s1 = "sw_write h sw"
  let ?s2 = "WriteUint32 ?vf ?s1"
  let ?s3 = "WriteUint32 (of_nat (length (SampleNumber b))) ?s2"
  from fold_WriteUint32_ok[of "SampleNumber b" ?s3] e sw' obtain p where
    p: "\<not> sw_err ?s3" "sw_bytes sw' = sw_bytes ?s3 @ p" "length p = 4 * length (SampleNumber b)" "sw_len sw' = sw_len ?s3"
    by auto
  from p(1) have 3: "sw_bytes ?s3 = sw_bytes ?s2 @ BigEndian_PutUint32 (of_nat (length (SampleNumber b)))" "\<not> sw_err ?s2" "sw_len ?s3 = sw_len ?s2"
    by (auto simp: WriteUint32_def sw_write_def split: if_splits)
  from 3(2) have 2: "sw_bytes ?s2 = sw_bytes ?s1 @ BigEndian_PutUint32 ?vf" "\<not> sw_err ?s1" "sw_len ?s2 = sw_len ?s1"
    by (auto simp: WriteUint32_def sw_write_def split: if_splits)
  from 2(2) have 1: "sw_bytes ?s1 = sw_bytes sw @ h" "sw_len ?s1 = sw_len sw"
    by (auto simp: sw_write_def split: if_splits)
  from h have "length h = 8" by (rule header_bytes_length)
  with 1 2 3 p e show ?thesis by (simp add: BigEndian_PutUint32_def)
qed


lemma sw_write_fits:
  "length (sw_bytes sw) \<le> sw_len sw \<Longrightarrow> length (sw_bytes (sw_write p sw)) \<le> sw_len sw"
  by (auto simp: sw_write_def)

lemma fold_WriteUint32_fits:
  "length (sw_bytes sw) \<le> sw_len sw \<Longrightarrow>
   length (sw_bytes (fold WriteUint32 xs sw)) \<le> sw_len sw \<and> sw_len (fold WriteUint32 xs sw) = sw_len sw"
proof (induction xs arbitrary: sw)
  case Nil
  then show ?case by simp
next
  case (Cons x xs)
  have "length (sw_bytes (WriteUint32 x sw)) \<le> sw_len (WriteUint32 x sw)" "sw_len (WriteUint32 x sw) = sw_len sw"
    using Cons.prems by (auto simp: WriteUint32_def sw_write_def)
  from Cons.IH[OF this(1)] this(2) show ?case by simp
qed

lemma Stss_EncodeSW_fits:
  assumes "Stss_EncodeSW b sw = Inr sw'" "length (sw_bytes sw) \<le> sw_len sw"
  shows "length (sw_bytes sw') \<le> sw_len sw"
proof -
  let ?vf = "push_bit 24 (ucast (Version b)) + Flags b"
  from assms(1) obtain h where
    sw': "sw' = fold WriteUint32 (SampleNumber b) (WriteUint32 (of_nat (length (SampleNumber b))) (WriteUint32 ?vf (sw_write h sw)))"
    by (auto simp: Stss_EncodeSW_def EncodeHeaderSW_def Let_def AccError_def split: sum.splits option.splits if_splits)
  have "length (sw_bytes (WriteUint32 (of_nat (length (SampleNumber b))) (WriteUint32 ?vf (sw_write h sw))))
          \<le> sw_len (WriteUint32 (of_nat (length (SampleNumber b))) (WriteUint32 ?vf (sw_write h sw)))"
    and "sw_len (WriteUint32 (of_nat (length (SampleNumber b))) (WriteUint32 ?vf (sw_write h sw))) = sw_len sw"
    using assms(2) by (auto simp: WriteUint32_def sw_write_def)
  from fold_WriteUint32_fits[OF this(1)] this(2) sw' show ?thesis by simp
qed

lemma unat_of_nat64: "unat (of_nat n :: uint64) = n mod 2 ^ 64"
  by (simp add: unat_of_nat)

lemma unat_Stss_Size: "unat (Stss_Size b) = (16 + 4 * length (SampleNumber b)) mod 2 ^ 64"
proof -
  have "boxHeaderSize + 8 + length (SampleNumber b) * 4 = 16 + 4 * length (SampleNumber b)"
    by (simp add: boxHeaderSize_def)
  then show ?thesis
    unfolding Stss_Size_def by (simp only: unat_of_nat64)
qed

lemma Stss_Encode_out:
  assumes "Stss_Encode b w = Inr w'"
  shows "\<exists>p. w_out w' = w_out w @ p \<and> length p = 16 + 4 * length (SampleNumber b) \<and> length p = unat (Stss_Size b)"
proof -
  from assms obtain sw where sw: "Stss_EncodeSW b (NewSliceWriter (unat (Stss_Size b))) = Inr sw"
    and w: "Write (sw_bytes sw) w = Inr w'"
    by (auto simp: Stss_Encode_def split: if_splits sum.splits)
  from Stss_EncodeSW_out[OF sw] have l: "length (sw_bytes sw) = 16 + 4 * length (SampleNumber b)"
    by (auto simp: NewSliceWriter_def)
  from Stss_EncodeSW_fits[OF sw] have "length (sw_bytes sw) \<le> unat (Stss_Size b)"
    by (simp add: NewSliceWriter_def)
  with l have "16 + 4 * length (SampleNumber b) \<le> (16 + 4 * length (SampleNumber b)) mod 2 ^ 64"
    by (simp add: unat_Stss_Size)
  then have "(16 + 4 * length (SampleNumber b)) mod 2 ^ 64 = 16 + 4 * length (SampleNumber b)"
    by (metis le_antisym mod_less_eq_dividend)
  with l w show ?thesis
    by (auto dest: Write_out simp: unat_Stss_Size)
qed


text \<open>
  What holds of the four encoders. When every child encodes to as many bytes as its
  \<open>Size()\<close> says, a successful \<open>Encode\<close> of an audio sample entry appends 36 bytes plus
  the sizes of the children, and so does an \<open>EncodeSW\<close> that returns no error and leaves
  no accumulated error in the writer; a successful \<open>Encode\<close> or \<open>EncodeSW\<close> of a sync
  sample box with \<open>k\<close> sample numbers appends \<open>8 + 8 + 4 k\<close> bytes. That count is the
  value of \<open>Size()\<close> (a \<open>uint64\<close>, so for a count below \<open>2^64\<close>). The buffer of
  \<open>Encode\<close> has room for the 28 bytes of the fixed fields.
\<close>

theorem Encode_writes_Size:
  assumes "\<forall>c\<in>set (Children a). honest c"
  shows "(Encode buflen a w = Inr w' \<and> 28 \<le> buflen \<longrightarrow>
            (\<exists>p. w_out w' = w_out w @ p \<and> length p = 36 + children_total a
                 \<and> (length p < 2 ^ 64 \<longrightarrow> length p = unat (Size a))))
       \<and> (EncodeSW a sw = Inr sw' \<and> \<not> sw_err sw' \<longrightarrow>
            (\<exists>p. sw_bytes sw' = sw_bytes sw @ p \<and> length p = 36 + children_total a
                 \<and> (length p < 2 ^ 64 \<longrightarrow> length p = unat (Size a))))
       \<and> (Stss_Encode b v = Inr v' \<longrightarrow>
            (\<exists>p. w_out v' = w_out v @ p \<and> length p = 8 + 8 + 4 * length (SampleNumber b)
                 \<and> length p = unat (Stss_Size b)))
       \<and> (Stss_EncodeSW b tw = Inr tw' \<longrightarrow>
            (\<exists>p. sw_bytes tw' = sw_bytes tw @ p \<and> length p = 8 + 8 + 4 * length (SampleNumber b)
                 \<and> (length p < 2 ^ 64 \<longrightarrow> length p = unat (Stss_Size b))))"
proof (intro conjI impI)
  assume "Encode buflen a w = Inr w' \<and> 28 \<le> buflen"
  with Encode_out[of buflen a w w'] assms
  show "\<exists>p. w_out w' = w_out w @ p \<and> length p = 36 + children_total a
                 \<and> (length p < 2 ^ 64 \<longrightarrow> length p = unat (Size a))"
    by (auto simp: unat_Size)
next
  assume "EncodeSW a sw = Inr sw' \<and> \<not> sw_err sw'"
  with EncodeSW_out[of a sw sw'] assms
  show "\<exists>p. sw_bytes sw' = sw_bytes sw @ p \<and> length p = 36 + children_total a
                 \<and> (length p < 2 ^ 64 \<longrightarrow> length p = unat (Size a))"
    by (auto simp: unat_Size)
next
  assume "Stss_Encode b v = Inr v'"
  from Stss_Encode_out[OF this]
  show "\<exists>p. w_out v' = w_out v @ p \<and> length p = 8 + 8 + 4 * length (SampleNumber b)
                 \<and> length p = unat (Stss_Size b)"
    by auto
next
  assume "Stss_EncodeSW b tw = Inr tw'"
  from Stss_EncodeSW_out[OF this]
  show "\<exists>p. sw_bytes tw' = sw_bytes tw @ p \<and> length p = 8 + 8 + 4 * length (SampleNumber b)
                 \<and> (length p < 2 ^ 64 \<longrightarrow> length p = unat (Stss_Size b))"
    by (auto simp: unat_Stss_Size)
qed


theorem Encode_writes_Size_witness:
  "Children example_mp4a = [example_esds] \<and> honest example_esds
   \<and> (\<exists>w'. Encode 28 example_mp4a example_writer = Inr w'
            \<and> length (w_out w') = 48 \<and> unat (Size example_mp4a) = 48)
   \<and> (\<exists>sw'. EncodeSW example_mp4a (NewSliceWriter 48) = Inr sw' \<and> \<not> sw_err sw'
            \<and> length (sw_bytes sw') = 48)
   \<and> (\<exists>v'. Stss_Encode example_stss example_writer = Inr v'
            \<and> length (w_out v') = 28 \<and> unat (Stss_Size example_stss) = 28)
   \<and> (\<exists>tw'. Stss_EncodeSW example_stss (NewSliceWriter 28) = Inr tw'
            \<and> length (sw_bytes tw') = 28)"
proof -
  have h: "\<forall>c\<in>set (Children example_mp4a). honest c"
    by (simp add: example_mp4a_def example_esds_def honest_def Box_Size_def)
  have t: "children_total example_mp4a = 12"
    by (simp add: children_total_def example_mp4a_def example_esds_def Box_Size_def)
  obtain w' where w': "Encode 28 example_mp4a example_writer = Inr w'"
    by (simp add: Encode_def EncodeHeader_def header_bytes_def Size_def example_mp4a_def
        example_esds_def Box_Size_def nrAudioSampleBytesBeforeChildren_def Write_def
        example_writer_def BigEndian_PutUint32_def tag_bytes_def write_fields_def
        NewSliceWriter_def WriteZeroBytes_def WriteUint16_def WriteUint32_def sw_write_def
        BigEndian_PutUint16_def Box_Encode_def)
  obtain sw' where sw': "EncodeSW example_mp4a (NewSliceWriter 48) = Inr sw'" "\<not> sw_err sw'"
    by (simp add: EncodeSW_def EncodeHeaderSW_def header_bytes_def Size_def example_mp4a_def
        example_esds_def Box_Size_def nrAudioSampleBytesBeforeChildren_def
        BigEndian_PutUint32_def tag_bytes_def write_fields_def NewSliceWriter_def
        WriteZeroBytes_def WriteUint16_def WriteUint32_def sw_write_def BigEndian_PutUint16_def
        Box_EncodeSW_def AccError_def)
  obtain v' where v': "Stss_Encode example_stss example_writer = Inr v'"
    by (simp add: Stss_Encode_def Stss_EncodeSW_def Stss_Size_def boxHeaderSize_def
        EncodeHeaderSW_def header_bytes_def example_stss_def example_writer_def
        BigEndian_PutUint32_def tag_bytes_def NewSliceWriter_def WriteUint32_def sw_write_def
        AccError_def Write_def)
  obtain tw' where tw': "Stss_EncodeSW example_stss (NewSliceWriter 28) = Inr tw'"
    by (simp add: Stss_EncodeSW_def Stss_Size_def boxHeaderSize_def EncodeHeaderSW_def
        header_bytes_def example_stss_def BigEndian_PutUint32_def tag_bytes_def
        NewSliceWriter_def WriteUint32_def sw_write_def AccError_def)
  have k: "length (SampleNumber example_stss) = 3"
    by (simp add: example_stss_def)
  from Encode_writes_Size [OF h, of 28 example_writer w' "NewSliceWriter 48" sw'
      example_stss example_writer v' "NewSliceWriter 28" tw'] w' sw' v' tw' t k
  show ?thesis
    using h by (auto simp: example_writer_def NewSliceWriter_def example_mp4a_def)
qed

lemma six_zero_bytes: "replicate 6 (0 :: byte) = [0, 0, 0, 0, 0, 0]"
  by (simp add: numeral_eq_Suc)

text \<open>
  Claim C1. The bytes written on success are as many as \<open>Size()\<close> says: this fails for
  \<open>EncodeSW\<close> of an audio sample entry. Into a writer of 20 bytes, the entry with no
  children writes its 8-byte header and 8 bytes of its fixed fields; the next write does
  not fit and the writer keeps the error, but \<open>EncodeSW\<close> returns the \<open>nil\<close> of
  \<open>EncodeHeaderSW\<close>: no error, 16 bytes written, \<open>Size()\<close> 36. \<open>EncodeSW\<close> of the sync
  sample box ends in \<open>return sw.AccError()\<close> and returns the error on the same writer.
\<close>

theorem EncodeSW_short_writer_returns_nil:
  "EncodeSW (NewAudioSampleEntryBox ''mp4a'') (NewSliceWriter 20)
     = Inr \<lparr>sw_len = 20,
            sw_bytes = [0, 0, 0, 36, 109, 112, 52, 97, 0, 0, 0, 0, 0, 0, 0, 1],
            sw_err = True\<rparr>
   \<and> unat (Size (NewAudioSampleEntryBox ''mp4a'')) = 36
   \<and> Stss_EncodeSW example_stss (NewSliceWriter 20) = Inl ErrSliceWriter"
  by (simp add: EncodeSW_def EncodeHeaderSW_def header_bytes_def Size_def
      NewAudioSampleEntryBox_def nrAudioSampleBytesBeforeChildren_def BigEndian_PutUint32_def
      tag_bytes_def write_fields_def NewSliceWriter_def WriteZeroBytes_def WriteUint16_def
      WriteUint32_def sw_write_def BigEndian_PutUint16_def Stss_EncodeSW_def Stss_Size_def
      boxHeaderSize_def example_stss_def AccError_def six_zero_bytes)

section \<open>Adding a child\<close>

lemma typed_sinf_append:
  "typed_sinf (xs @ ys) = (case typed_sinf ys of Some s \<Rightarrow> Some s | None \<Rightarrow> typed_sinf xs)"
  by (induction xs) (auto split: option.splits)

lemma typed_sinf_none: "\<forall>c\<in>set cs. Box_Type c \<noteq> ''sinf'' \<Longrightarrow> typed_sinf cs = None"
  by (induction cs) (auto split: option.splits Box.splits)

lemma AddChild_typed_sinf:
  "Sinf a = typed_sinf (Children a) \<Longrightarrow> AddChild a child = Inr a' \<Longrightarrow> Sinf a' = typed_sinf (Children a')"
  by (auto simp: AddChild_def typed_sinf_append split: if_splits Box.splits option.splits)

lemma New_typed_sinf: "Sinf (NewAudioSampleEntryBox nm) = typed_sinf (Children (NewAudioSampleEntryBox nm))"
  by (simp add: NewAudioSampleEntryBox_def)


text \<open>
  Claim C10. \<open>AddChild\<close> panics on its type assertion exactly when the child's tag is
  \<open>esds\<close> and the box is not an \<open>EsdsBox\<close>, or the tag is \<open>sinf\<close> and the box is not a
  \<open>SinfBox\<close>; in every other case it appends the child.
\<close>

theorem AddChild_panics_iff_tag_mismatch:
  "((Box_Type child = ''esds'' \<and> (\<forall>e. child \<noteq> AsEsds e))
      \<or> (Box_Type child = ''sinf'' \<and> (\<forall>s. child \<noteq> AsSinf s))
      \<longrightarrow> AddChild a child = Inl PanicTypeAssertion)
   \<and> (\<not> ((Box_Type child = ''esds'' \<and> (\<forall>e. child \<noteq> AsEsds e))
          \<or> (Box_Type child = ''sinf'' \<and> (\<forall>s. child \<noteq> AsSinf s)))
      \<longrightarrow> (\<exists>a'. AddChild a child = Inr a' \<and> Children a' = Children a @ [child]))"
  by (cases child) (auto simp: AddChild_def)

theorem AddChild_panics_iff_tag_mismatch_witness:
  "Box_Type (AsOther \<lparr>other_type = ''esds'', other_image = \<lparr>img_size = 8, img_bytes = Inr []\<rparr>\<rparr>)
     = ''esds''
   \<and> AddChild example_mp4a
        (AsOther \<lparr>other_type = ''esds'', other_image = \<lparr>img_size = 8, img_bytes = Inr []\<rparr>\<rparr>)
      = Inl PanicTypeAssertion
   \<and> AddChild example_mp4a
        (AsOther \<lparr>other_type = ''sinf'', other_image = \<lparr>img_size = 8, img_bytes = Inr []\<rparr>\<rparr>)
      = Inl PanicTypeAssertion
   \<and> (\<exists>a'. AddChild example_mp4a example_esds = Inr a'
          \<and> Children a' = Children example_mp4a @ [example_esds])"
  using AddChild_panics_iff_tag_mismatch [of
      "AsOther \<lparr>other_type = ''esds'', other_image = \<lparr>img_size = 8, img_bytes = Inr []\<rparr>\<rparr>"
      example_mp4a]
    AddChild_panics_iff_tag_mismatch [of
      "AsOther \<lparr>other_type = ''sinf'', other_image = \<lparr>img_size = 8, img_bytes = Inr []\<rparr>\<rparr>"
      example_mp4a]
    AddChild_panics_iff_tag_mismatch [of example_esds example_mp4a]
  by (simp add: example_esds_def)

section \<open>Removing the encryption\<close>

lemma RemoveEncryption_loop_none: "\<forall>x\<in>set (Children a). Box_Type x \<noteq> ''sinf'' \<Longrightarrow> RemoveEncryption_loop i a = a"
proof (induction i a rule: RemoveEncryption_loop.induct)
  case (1 i a)
  then show ?case by (subst RemoveEncryption_loop.simps) auto
qed

lemma RemoveEncryption_loop_removes:
  "Children a = pre @ [c] @ post \<Longrightarrow> Box_Type c = ''sinf'' \<Longrightarrow> \<forall>x\<in>set pre. Box_Type x \<noteq> ''sinf'' \<Longrightarrow> i \<le> length pre \<Longrightarrow>
   RemoveEncryption_loop i a = a\<lparr>Children := pre @ post, Sinf := None\<rparr>"
proof (induction i a rule: RemoveEncryption_loop.induct)
  case (1 i a)
  show ?case
  proof (cases "i < length pre")
    case True
    then have "Children a ! i = pre ! i" "pre ! i \<in> set pre" using 1(2) by (auto simp: nth_append)
    then have ne: "Box_Type (Children a ! i) \<noteq> ''sinf''" using 1(4) by auto
    have lt: "i < length (Children a)" using True 1(2) by simp
    have "RemoveEncryption_loop (i + 1) a = a\<lparr>Children := pre @ post, Sinf := None\<rparr>"
      using 1(1)[OF lt ne 1(2) 1(3) 1(4)] True by simp
    then show ?thesis using lt ne by (subst RemoveEncryption_loop.simps) simp
  next
    case False
    with 1(5) have i: "i = length pre" by simp
    then show ?thesis using 1(2) 1(3) by (subst RemoveEncryption_loop.simps) (simp add: nth_append)
  qed
qed


text \<open>
  What \<open>RemoveEncryption\<close> does for an entry whose \<open>Sinf\<close> reference is the one
  \<open>AddChild\<close> leaves for its children. It returns an error and leaves the entry as it
  was when the tag is not \<open>enca\<close>, and when the tag is \<open>enca\<close> and no child has the tag
  \<open>sinf\<close>. When the tag is \<open>enca\<close> and exactly one child has the tag \<open>sinf\<close>, that
  child being a \<open>SinfBox\<close>, it removes that child, clears \<open>Sinf\<close>, renames the entry to
  the format recorded in the removed box and returns the removed box.
\<close>

theorem RemoveEncryption_single_sinf:
  assumes "Sinf a = typed_sinf (Children a)"
  shows "(name a \<noteq> ''enca'' \<longrightarrow> RemoveEncryption a = (Inl (ErrIsNotEncrypted (name a)), a))
    \<and> (name a = ''enca'' \<and> (\<forall>c\<in>set (Children a). Box_Type c \<noteq> ''sinf'') \<longrightarrow> RemoveEncryption a = (Inl ErrNoSinfBox, a))
    \<and> (name a = ''enca'' \<and> Children a = pre @ [AsSinf s] @ post \<and> (\<forall>c\<in>set (pre @ post). Box_Type c \<noteq> ''sinf'')
         \<longrightarrow> RemoveEncryption a = (Inr s, a\<lparr>name := DataFormat (Frma s), Sinf := None, Children := pre @ post\<rparr>))"
proof (intro conjI impI)
  assume "name a \<noteq> ''enca''"
  then show "RemoveEncryption a = (Inl (ErrIsNotEncrypted (name a)), a)"
    by (simp add: RemoveEncryption_def)
next
  assume h: "name a = ''enca'' \<and> (\<forall>c\<in>set (Children a). Box_Type c \<noteq> ''sinf'')"
  then have "Sinf a = None" using assms by (simp add: typed_sinf_none)
  with h show "RemoveEncryption a = (Inl ErrNoSinfBox, a)"
    by (simp add: RemoveEncryption_def)
next
  assume h: "name a = ''enca'' \<and> Children a = pre @ [AsSinf s] @ post \<and> (\<forall>c\<in>set (pre @ post). Box_Type c \<noteq> ''sinf'')"
  then have "typed_sinf post = None" "typed_sinf pre = None" by (auto intro: typed_sinf_none)
  then have "Sinf a = Some s" using assms h by (simp add: typed_sinf_append)
  moreover have "RemoveEncryption_loop 0 a = a\<lparr>Children := pre @ post, Sinf := None\<rparr>"
    using h by (intro RemoveEncryption_loop_removes) auto
  ultimately show "RemoveEncryption a = (Inr s, a\<lparr>name := DataFormat (Frma s), Sinf := None, Children := pre @ post\<rparr>)"
    using h by (simp add: RemoveEncryption_def)
qed


theorem RemoveEncryption_single_sinf_witness:
  "Sinf (example_enca\<lparr>Sinf := Some example_sinf1, Children := [example_esds, AsSinf example_sinf1]\<rparr>)
     = typed_sinf [example_esds, AsSinf example_sinf1]
   \<and> RemoveEncryption
        (example_enca\<lparr>Sinf := Some example_sinf1, Children := [example_esds, AsSinf example_sinf1]\<rparr>)
      = (Inr example_sinf1,
         example_enca\<lparr>name := ''mp4a'', Sinf := None, Children := [example_esds]\<rparr>)
   \<and> RemoveEncryption example_mp4a = (Inl (ErrIsNotEncrypted ''mp4a''), example_mp4a)
   \<and> RemoveEncryption (example_mp4a\<lparr>name := ''enca''\<rparr>)
      = (Inl ErrNoSinfBox, example_mp4a\<lparr>name := ''enca''\<rparr>)"
  using RemoveEncryption_single_sinf [of
      "example_enca\<lparr>Sinf := Some example_sinf1, Children := [example_esds, AsSinf example_sinf1]\<rparr>"
      "[example_esds]" example_sinf1 "[]"]
    RemoveEncryption_single_sinf [of example_mp4a "[]" example_sinf1 "[]"]
    RemoveEncryption_single_sinf [of "example_mp4a\<lparr>name := ''enca''\<rparr>" "[]" example_sinf1 "[]"]
  by (simp add: example_enca_def example_mp4a_def example_esds_def example_sinf1_def
      NewAudioSampleEntryBox_def)

text \<open>
  Claim C3. On success the \<open>sinf\<close> box is removed from the children and it is the removed
  box that is returned and gives the new tag: this fails for an entry with two \<open>sinf\<close>
  children. Two calls of \<open>AddChild\<close> on a new \<open>enca\<close> entry leave the second box in
  \<open>Sinf\<close>; \<open>RemoveEncryption\<close> removes the first child, clears \<open>Sinf\<close>, and returns and
  renames from the second, which stays among the children.
\<close>

theorem RemoveEncryption_two_sinf:
  "(case AddChild (NewAudioSampleEntryBox ''enca'') (AsSinf example_sinf1) of
      Inl e \<Rightarrow> Inl e
    | Inr a \<Rightarrow> AddChild a (AsSinf example_sinf2)) = Inr example_enca
   \<and> Children example_enca = [AsSinf example_sinf1, AsSinf example_sinf2]
   \<and> example_sinf1 \<noteq> example_sinf2
   \<and> fst (RemoveEncryption example_enca) = Inr example_sinf2
   \<and> Children (snd (RemoveEncryption example_enca)) = [AsSinf example_sinf2]
   \<and> Sinf (snd (RemoveEncryption example_enca)) = None
   \<and> name (snd (RemoveEncryption example_enca)) = ''ac-3''"
  by (simp add: AddChild_def RemoveEncryption_def example_enca_def NewAudioSampleEntryBox_def
      RemoveEncryption_loop.simps example_sinf1_def example_sinf2_def)

section \<open>The sample rate field\<close>

lemma be32_roundtrip: "BigEndian_Uint32 (BigEndian_PutUint32 v) = v"
  unfolding BigEndian_PutUint32_def
  apply simp
  apply (rule bit_word_eqI)
  subgoal for n
    apply (cases "n < 8"; cases "n < 16"; cases "n < 24")
    apply (auto simp add: bit_simps)
    done
  done

lemma fixed32_bits: "bit (makeFixed32Uint (makeUint16FromFixed32 x)) n = (16 \<le> n \<and> bit x n)"
  by (cases "n < 32") (auto simp: makeFixed32Uint_def makeUint16FromFixed32_def bit_simps dest: bit_imp_le_length)

lemma fixed32_drop: "drop_bit 16 (makeFixed32Uint (makeUint16FromFixed32 x)) = drop_bit 16 x"
  by (rule bit_word_eqI) (auto simp: bit_simps fixed32_bits)

lemma fixed32_take: "take_bit 16 (makeFixed32Uint (makeUint16FromFixed32 x)) = 0"
  by (rule bit_word_eqI) (auto simp: bit_simps fixed32_bits)

lemma fixed32_exact: "take_bit 16 x = 0 \<Longrightarrow> makeFixed32Uint (makeUint16FromFixed32 x) = x"
proof (rule bit_word_eqI)
  fix n assume a: "take_bit 16 x = 0" "n < LENGTH(32)"
  have "\<not> bit (take_bit 16 x) n" using a by simp
  then have "bit x n \<Longrightarrow> 16 \<le> n" by (auto simp: bit_simps)
  then show "bit (makeFixed32Uint (makeUint16FromFixed32 x)) n = bit x n"
    by (auto simp: fixed32_bits)
qed

lemma fixed32_lossy: "take_bit 16 x \<noteq> 0 \<Longrightarrow> makeFixed32Uint (makeUint16FromFixed32 x) \<noteq> x"
  using fixed32_take[of x] by auto

lemma decode_child_SampleRate:
  "decode_child D hdr sp pos r a = Return (Inr x) \<Longrightarrow> SampleRate x = SampleRate a"
  "decode_child D hdr sp pos r a = Next p r' x \<Longrightarrow> SampleRate x = SampleRate a"
  by (auto simp: decode_child_def check_pos_def AddChild_def split: prod.splits sum.splits option.splits if_splits Box.splits)

lemma decode_children_SampleRate_all:
  assumes "decode_children D hdr sp pos r a = Some y"
  shows "\<forall>a'. y = Inr a' \<longrightarrow> SampleRate a' = SampleRate a"
proof (rule decode_children.raw_induct
    [where P = "\<lambda>D hdr sp pos r a y. \<forall>a'. y = Inr a' \<longrightarrow> SampleRate a' = SampleRate a",
     OF _ assms])
  fix f D hdr sp pos r a y
  assume ih: "\<And>D hdr sp pos r a y. f D hdr sp pos r a = Some y \<Longrightarrow>
                \<forall>a'. y = Inr a' \<longrightarrow> SampleRate a' = SampleRate a"
    and run: "(case decode_child D hdr sp pos r a of
                 Next pos' r a' \<Rightarrow> f D hdr sp pos' r a'
               | Return res \<Rightarrow> Some res) = Some y"
  show "\<forall>a'. y = Inr a' \<longrightarrow> SampleRate a' = SampleRate a"
  proof (cases "decode_child D hdr sp pos r a")
    case (Next p r' x)
    with run have "f D hdr sp p r' x = Some y" by simp
    from ih[OF this] decode_child_SampleRate(2)[OF Next] show ?thesis by simp
  next
    case (Return res)
    with run decode_child_SampleRate(1)[of D hdr sp pos r a] show ?thesis by auto
  qed
qed

lemma decode_fields_eq:
  "decode_fields nm data = (a, s) \<Longrightarrow>
   SampleRate a = makeUint16FromFixed32 (BigEndian_Uint32 (take 4 (drop 24 data))) \<and> RemainingBytes s = drop 28 data"
  by (auto simp: decode_fields_def NewSliceReader_def SkipBytes_def ReadUint16_def ReadUint32_def RemainingBytes_def Let_def)

lemma example_decode_fields: "decode_fields ''mp4a'' (example_body @ bs) = (example_decoded, \<lparr>sr_slice = example_body @ bs, sr_pos = 28\<rparr>)"
  by (simp add: decode_fields_def example_body_def NewSliceReader_def SkipBytes_def ReadUint16_def
      ReadUint32_def NewAudioSampleEntryBox_def makeUint16FromFixed32_def example_decoded_def)

lemma example_decode: "DecodeAudioSampleEntry example_decodeBox \<lparr>hdr_name = ''mp4a'', hdr_size = 36\<rparr> 0 (Inr example_body) = Some (Inr example_decoded)"
  using example_decode_fields[of "[]"]
  by (simp add: DecodeAudioSampleEntry_def decode_children.simps decode_child_def RemainingBytes_def example_decodeBox_def)
     (simp add: example_body_def)


lemma encode_children_appends:
  "encode_children cs w = Inr w' \<Longrightarrow> \<exists>p. w_out w' = w_out w @ p"
proof (induction cs arbitrary: w)
  case Nil
  then show ?case by simp
next
  case (Cons c cs)
  from Cons.prems obtain w1 where w1: "Box_Encode c w = Inr w1" "encode_children cs w1 = Inr w'"
    by (auto split: sum.splits)
  from w1(1) obtain q where "w_out w1 = w_out w @ q"
    by (auto simp: Box_Encode_def split: sum.splits dest: Write_out)
  with Cons.IH[OF w1(2)] show ?case by auto
qed

lemma Encode_layout:
  assumes "Encode buflen a w = Inr w'" "28 \<le> buflen"
  shows "\<exists>h p. w_out w' = w_out w @ h @ fixed_fields a @ p \<and> length h = 8"
proof -
  from assms(1) obtain h w1 w2 where
    h: "header_bytes (name a) (Size a) = Inr h" "Write h w = Inr w1"
    and f: "Write (sw_bytes (write_fields a (NewSliceWriter buflen))) w1 = Inr w2"
    and c: "encode_children (Children a) w2 = Inr w'"
    by (auto simp: Encode_def EncodeHeader_def Let_def split: sum.splits)
  from h have 1: "w_out w1 = w_out w @ h" "length h = 8"
    by (auto dest: Write_out header_bytes_length)
  from f assms(2) have 2: "w_out w2 = w_out w1 @ fixed_fields a"
    by (auto dest: Write_out simp: write_fields_new)
  from encode_children_appends[OF c] obtain p where "w_out w' = w_out w2 @ p"
    by auto
  with 1 2 show ?thesis by auto
qed

lemma Encode_rate_field:
  assumes "Encode buflen a w = Inr w'" "28 \<le> buflen"
  shows "take 4 (drop (length (w_out w) + 32) (w_out w')) = BigEndian_PutUint32 (makeFixed32Uint (SampleRate a))"
proof -
  from Encode_layout[OF assms] obtain h p where
    l: "w_out w' = w_out w @ h @ fixed_fields a @ p" "length h = 8" by auto
  have "drop 24 (fixed_fields a) = BigEndian_PutUint32 (makeFixed32Uint (SampleRate a))"
    by (simp add: fixed_fields_def BigEndian_PutUint16_def)
  moreover have "length (BigEndian_PutUint32 (makeFixed32Uint (SampleRate a))) = 4"
    by (simp add: BigEndian_PutUint32_def)
  ultimately show ?thesis using l by (simp add: length_fixed_fields)
qed

lemma Decode_rate_field:
  assumes "DecodeAudioSampleEntry D hdr startPos (Inr data) = Some (Inr a)"
  shows "SampleRate a = makeUint16FromFixed32 (BigEndian_Uint32 (take 4 (drop 24 data)))"
proof -
  obtain a0 s where f: "decode_fields (hdr_name hdr) data = (a0, s)"
    by (cases "decode_fields (hdr_name hdr) data")
  with assms have "decode_children D hdr startPos
      (startPos + of_nat nrAudioSampleBytesBeforeChildren) (RemainingBytes s) a0 = Some (Inr a)"
    by (simp add: DecodeAudioSampleEntry_def split: if_splits)
  from decode_children_SampleRate_all[OF this] have "SampleRate a = SampleRate a0" by simp
  with decode_fields_eq[OF f] show ?thesis by simp
qed


text \<open>
  Claim C8. Decoding keeps the top 16 bits of the 32-bit sample rate field \<open>x\<close> (bytes
  24 to 27 of the body) and encoding writes the kept value shifted left by 16 bits (bytes
  32 to 35 of the box): the field \<open>y\<close> that comes out has the top 16 bits of \<open>x\<close>
  and its low 16 bits are zero, and it is \<open>x\<close> exactly when the low 16 bits of \<open>x\<close>
  are zero.
\<close>

theorem sample_rate_round_trip:
  assumes dec: "DecodeAudioSampleEntry D hdr startPos (Inr data) = Some (Inr a)"
    and enc: "Encode buflen a w = Inr w'" "28 \<le> buflen"
    and x: "x = BigEndian_Uint32 (take 4 (drop 24 data))"
    and y: "y = BigEndian_Uint32 (take 4 (drop (length (w_out w) + 32) (w_out w')))"
  shows "SampleRate a = ucast (drop_bit 16 x)
       \<and> y = push_bit 16 (ucast (SampleRate a))
       \<and> drop_bit 16 y = drop_bit 16 x \<and> take_bit 16 y = 0
       \<and> (y = x) = (take_bit 16 x = 0)"
proof -
  have r: "SampleRate a = makeUint16FromFixed32 x"
    using Decode_rate_field[OF dec] x by simp
  have "y = makeFixed32Uint (SampleRate a)"
    using Encode_rate_field[OF enc] y by (simp add: be32_roundtrip)
  with r have yx: "y = makeFixed32Uint (makeUint16FromFixed32 x)" by simp
  have "(y = x) = (take_bit 16 x = 0)"
    using fixed32_exact[of x] fixed32_lossy[of x] yx by auto
  with r yx show ?thesis
    by (simp add: fixed32_drop fixed32_take) (simp add: makeFixed32Uint_def makeUint16FromFixed32_def)
qed


theorem sample_rate_round_trip_witness:
  "DecodeAudioSampleEntry example_decodeBox \<lparr>hdr_name = ''mp4a'', hdr_size = 36\<rparr> 0 (Inr example_body)
     = Some (Inr example_decoded)
   \<and> take 4 (drop 24 example_body) = [0xBB, 0x80, 0x12, 0x34]
   \<and> SampleRate example_decoded = 0xBB80
   \<and> (\<exists>w'. Encode 28 example_decoded example_writer = Inr w'
          \<and> BigEndian_Uint32 (take 4 (drop 32 (w_out w'))) = 0xBB800000)"
proof -
  have d: "DecodeAudioSampleEntry example_decodeBox \<lparr>hdr_name = ''mp4a'', hdr_size = 36\<rparr> 0
             (Inr example_body) = Some (Inr example_decoded)"
    by (rule example_decode)
  obtain w' where e: "Encode 28 example_decoded example_writer = Inr w'"
    by (simp add: Encode_def EncodeHeader_def header_bytes_def Size_def example_decoded_def
        nrAudioSampleBytesBeforeChildren_def Write_def
        example_writer_def BigEndian_PutUint32_def tag_bytes_def write_fields_def
        NewSliceWriter_def WriteZeroBytes_def WriteUint16_def WriteUint32_def sw_write_def
        BigEndian_PutUint16_def)
  have r: "SampleRate example_decoded = 0xBB80"
    by (simp add: example_decoded_def)
  from sample_rate_round_trip [OF d e _ refl refl] r e d show ?thesis
    by (simp add: example_writer_def example_body_def)
qed


section \<open>A child that overshoots the declared size\<close>

lemma iterates_same_result:
  "iterates D hdr sp s t \<Longrightarrow>
   (case s of (p0, r0, a0) \<Rightarrow> decode_children D hdr sp p0 r0 a0)
     = (case t of (p, r, a) \<Rightarrow> decode_children D hdr sp p r a)"
proof (induction rule: iterates.induct)
  case (start s)
  show ?case by simp
next
  case (again s pos r a pos' r' a')
  have "decode_children D hdr sp pos r a = decode_children D hdr sp pos' r' a'"
    using again.hyps(2) by (subst decode_children.simps) simp
  with again.IH show ?case by simp
qed

lemma decode_children_overshoot:
  assumes "D pos r = (Inr (Some box), r')" "AddChild a box = Inr a'"
    "sp + hdr_size hdr < pos + Box_Size box"
  shows "decode_children D hdr sp pos r a = Some (Inl (ErrBadSize (hdr_name hdr)))"
proof -
  have "decode_child D hdr sp pos r a = Return (Inl (ErrBadSize (hdr_name hdr)))"
    using assms by (auto simp: decode_child_def check_pos_def)
  then show ?thesis by (subst decode_children.simps) simp
qed


text \<open>
  Claim C7. When the loop over the children of \<open>DecodeAudioSampleEntry\<close> reaches a state
  in which the dispatcher returns a child, \<open>AddChild\<close> takes it, and adding its size to
  the running position gives a position strictly past the declared end
  \<open>startPos + hdr.size\<close> (both below \<open>2^64\<close>), decoding returns the error
  \<open>Bad size when decoding\<close> with the tag of the box being decoded.
\<close>

theorem DecodeAudioSampleEntry_bad_size:
  assumes body: "28 \<le> length data" "decode_fields (hdr_name hdr) data = (a0, s)"
    and reach: "iterates D hdr startPos
                  (startPos + of_nat nrAudioSampleBytesBeforeChildren, RemainingBytes s, a0)
                  (pos, r, a)"
    and child: "D pos r = (Inr (Some box), r')" "AddChild a box = Inr a'"
    and range: "unat startPos + unat (hdr_size hdr) < 2 ^ 64" "unat pos + unat (Box_Size box) < 2 ^ 64"
    and past: "unat startPos + unat (hdr_size hdr) < unat pos + unat (Box_Size box)"
  shows "DecodeAudioSampleEntry D hdr startPos (Inr data) = Some (Inl (ErrBadSize (hdr_name hdr)))"
proof -
  have "unat (startPos + hdr_size hdr) = unat startPos + unat (hdr_size hdr)"
    using range(1) by (simp add: unat_word_ariths)
  moreover have "unat (pos + Box_Size box) = unat pos + unat (Box_Size box)"
    using range(2) by (simp add: unat_word_ariths)
  ultimately have "startPos + hdr_size hdr < pos + Box_Size box"
    using past by (simp add: word_less_nat_alt)
  then have "decode_children D hdr startPos pos r a = Some (Inl (ErrBadSize (hdr_name hdr)))"
    using child by (rule decode_children_overshoot[rotated 2])
  with iterates_same_result[OF reach]
  have "decode_children D hdr startPos (startPos + of_nat nrAudioSampleBytesBeforeChildren)
          (RemainingBytes s) a0 = Some (Inl (ErrBadSize (hdr_name hdr)))"
    by simp
  with body show ?thesis
    by (simp add: DecodeAudioSampleEntry_def)
qed


theorem DecodeAudioSampleEntry_bad_size_witness:
  "DecodeAudioSampleEntry example_decodeBox \<lparr>hdr_name = ''mp4a'', hdr_size = 40\<rparr> 0
     (Inr (example_body @ [0, 0, 0, 12, 101, 115, 100, 115, 0, 0, 0, 0]))
   = Some (Inl (ErrBadSize ''mp4a''))
   \<and> unat (Box_Size example_esds) = 12"
proof -
  let ?hdr = "\<lparr>hdr_name = ''mp4a'', hdr_size = 40\<rparr>"
  let ?data = "example_body @ [0, 0, 0, 12, 101, 115, 100, 115, 0, 0, 0, 0]"
  let ?s = "\<lparr>sr_slice = ?data, sr_pos = 28\<rparr>"
  let ?pos = "0 + of_nat nrAudioSampleBytesBeforeChildren :: uint64"
  have l: "28 \<le> length ?data"
    by (simp add: example_body_def)
  have f: "decode_fields (hdr_name ?hdr) ?data = (example_decoded, ?s)"
    using example_decode_fields by simp
  have c: "example_decodeBox ?pos (RemainingBytes ?s) = (Inr (Some example_esds), [])"
    by (simp add: example_decodeBox_def RemainingBytes_def example_body_def)
  have a: "AddChild example_decoded example_esds
             = Inr (example_decoded\<lparr>Esds := Some \<lparr>esds_image = box_image example_esds\<rparr>,
                                     Children := [example_esds]\<rparr>)"
    by (simp add: AddChild_def example_esds_def example_decoded_def)
  have sz: "unat (Box_Size example_esds) = 12"
    by (simp add: Box_Size_def example_esds_def)
  have "DecodeAudioSampleEntry example_decodeBox ?hdr 0 (Inr ?data)
          = Some (Inl (ErrBadSize (hdr_name ?hdr)))"
    by (rule DecodeAudioSampleEntry_bad_size [where D = example_decodeBox and startPos = 0 and pos = ?pos
          and r = "RemainingBytes ?s" and a = example_decoded and box = example_esds,
          OF l f iterates.start c a])
      (simp_all add: sz nrAudioSampleBytesBeforeChildren_def)
  with sz show ?thesis
    by simp
qed

section \<open>AVC byte streams: the rows of the test table\<close>

text \<open>The functions modelled from the spec give what each row of \<open>annexb_test.go\<close> expects.\<close>

lemma TestNaluExtraction:
  "ExtractNalusFromByteStream [0, 0, 0, 1, 2] = Some [[2]]"
  "ExtractNalusFromByteStream [0, 0, 1, 2] = Some [[2]]"
  "ExtractNalusFromByteStream [0, 0, 2] = None"
  "ExtractNalusFromByteStream [0, 0, 1] = None"
  "ExtractNalusFromByteStream [0, 0, 1, 2, 0, 0, 0, 1, 1] = Some [[2], [1]]"
  by (simp_all add: ExtractNalusFromByteStream_def split_units.simps absent_if_empty_def)

lemma TestByteStreamToNaluSampleConversion:
  "ConvertByteStreamToNaluSample [0, 0, 0, 1, 2, 3] = [0, 0, 0, 2, 2, 3]"
  "ConvertByteStreamToNaluSample [0, 0, 1, 2, 3] = [0, 0, 0, 2, 2, 3]"
  "ConvertByteStreamToNaluSample [0, 0, 0, 1, 2, 3, 0, 0, 0, 1, 7] = [0, 0, 0, 2, 2, 3, 0, 0, 0, 1, 7]"
  "ConvertByteStreamToNaluSample [0, 0, 1, 2, 3, 0, 0, 1, 7] = [0, 0, 0, 2, 2, 3, 0, 0, 0, 1, 7]"
  by (simp_all add: ConvertByteStreamToNaluSample_def found_nalus_def ExtractNalusFromByteStream_def
      split_units.simps absent_if_empty_def BigEndian_PutUint32_def)

lemma TestSampleToByteStreamConversion:
  "ConvertSampleToByteStream [0, 0, 0, 2, 2, 3] = Some [0, 0, 0, 1, 2, 3]"
  "ConvertSampleToByteStream [0, 0, 0, 2, 2, 3, 0, 0, 0, 1, 7] = Some [0, 0, 0, 1, 2, 3, 0, 0, 0, 1, 7]"
  by (simp_all add: ConvertSampleToByteStream.simps)

lemma TestGetParameterSetsFromByteStream:
  "GetParameterSetsFromByteStream [0, 0, 0, 1, 5, 0] = (None, None)"
  by (simp_all add: GetParameterSetsFromByteStream_def found_nalus_def ExtractNalusFromByteStream_def
      split_units.simps absent_if_empty_def)



text \<open>
  Claim C4 as stated fails: the units that come out carry their header byte, as the
  test expects, so the lists are not \<open>[[5, 4]]\<close> and \<open>[[1, 2]]\<close>.
\<close>

theorem GetParameterSets_without_header_counterexample:
  "GetParameterSetsFromByteStream example_stream \<noteq> (Some [[5, 4]], Some [[1, 2]])"
  by (simp add: GetParameterSetsFromByteStream_def found_nalus_def
      ExtractNalusFromByteStream_def split_units.simps absent_if_empty_def example_stream_def)

text \<open>
  Claim C4, amended. For the byte stream of an AUD unit, an SPS \<open>07 05 04\<close>, a PPS
  \<open>08 01 02\<close> and two IDR units, each after a start code, the extractor returns the SPS
  list \<open>[[7, 5, 4]]\<close> and the PPS list \<open>[[8, 1, 2]]\<close>: each unit with its header byte,
  and neither the AUD nor an IDR unit in either list.
\<close>

theorem GetParameterSets_scenario:
  "GetParameterSetsFromByteStream example_stream = (Some [[7, 5, 4]], Some [[8, 1, 2]])"
  by (simp add: GetParameterSetsFromByteStream_def found_nalus_def
      ExtractNalusFromByteStream_def split_units.simps absent_if_empty_def example_stream_def)

section \<open>AVC byte streams: nothing to find\<close>

lemma contains_start_code_sublist: "contains_start_code bs = sublist [0, 0, 1] bs"
proof (induction bs)
  case Nil
  show ?case by simp
next
  case (Cons b bs)
  have "(take 3 (b # bs) = [0, 0, 1]) = prefix [0, 0, 1] (b # bs)"
    by (auto simp: prefix_def take_Suc_conv_app_nth numeral_3_eq_3 split: list.splits)
       (cases bs; simp; cases "tl bs"; simp)
  with Cons show ?case by (simp add: sublist_Cons_right)
qed


lemma take3_contains: "take 3 bs = [0, 0, 1] \<Longrightarrow> contains_start_code bs"
  by (cases bs) auto

lemma no_start_code_none: "\<not> contains_start_code bs \<Longrightarrow> next_start_code bs = None"
proof (induction bs)
  case Nil
  show ?case by simp
next
  case (Cons b bs)
  then have h: "take 3 (b # bs) \<noteq> [0, 0, 1]" "\<not> contains_start_code bs"
    by auto
  have "take 4 (b # bs) \<noteq> [0, 0, 0, 1]"
  proof
    assume "take 4 (b # bs) = [0, 0, 0, 1]"
    then have "take 3 bs = [0, 0, 1]"
      by (simp add: numeral_eq_Suc)
    with h(2) show False
      by (auto dest: take3_contains)
  qed
  with h Cons.IH show ?case
    by simp
qed


text \<open>
  Claim C5. A buffer that holds no start code, and a buffer that is only a start code,
  give the scanner's absent result; no result of the scanner or of the parameter-set
  extractor is an allocated empty sequence; and when no unit found is an SPS or a PPS
  the extractor returns two absent sequences. None of these functions has an error
  result.
\<close>

theorem nothing_found_is_absent:
  "(\<not> contains_start_code data \<longrightarrow> ExtractNalusFromByteStream data = None)
   \<and> (is_start_code sc \<longrightarrow> ExtractNalusFromByteStream sc = None)
   \<and> ExtractNalusFromByteStream data \<noteq> Some []
   \<and> (list_all (\<lambda>u. nalu_type u \<noteq> Some 7 \<and> nalu_type u \<noteq> Some 8) (found_nalus data) \<longrightarrow>
        GetParameterSetsFromByteStream data = (None, None))
   \<and> fst (GetParameterSetsFromByteStream data) \<noteq> Some []
   \<and> snd (GetParameterSetsFromByteStream data) \<noteq> Some []"
proof (intro conjI impI)
  assume "\<not> contains_start_code data"
  then show "ExtractNalusFromByteStream data = None"
    by (simp add: ExtractNalusFromByteStream_def no_start_code_none)
next
  assume "is_start_code sc"
  then show "ExtractNalusFromByteStream sc = None"
    by (auto simp: is_start_code_def ExtractNalusFromByteStream_def split_units.simps absent_if_empty_def)
next
  show "ExtractNalusFromByteStream data \<noteq> Some []"
    by (auto simp: ExtractNalusFromByteStream_def absent_if_empty_def split: option.splits)
next
  assume "list_all (\<lambda>u. nalu_type u \<noteq> Some 7 \<and> nalu_type u \<noteq> Some 8) (found_nalus data)"
  then have "filter (\<lambda>u. nalu_type u = Some 7) (found_nalus data) = []"
    "filter (\<lambda>u. nalu_type u = Some 8) (found_nalus data) = []"
    by (auto simp: list_all_iff filter_empty_conv)
  then show "GetParameterSetsFromByteStream data = (None, None)"
    by (simp add: GetParameterSetsFromByteStream_def absent_if_empty_def)
next
  show "fst (GetParameterSetsFromByteStream data) \<noteq> Some []"
    by (simp add: GetParameterSetsFromByteStream_def absent_if_empty_def)
next
  show "snd (GetParameterSetsFromByteStream data) \<noteq> Some []"
    by (simp add: GetParameterSetsFromByteStream_def absent_if_empty_def)
qed


theorem nothing_found_is_absent_witness:
  "\<not> contains_start_code [0, 0, 2]
   \<and> ExtractNalusFromByteStream [0, 0, 2] = None
   \<and> is_start_code [0, 0, 1]
   \<and> ExtractNalusFromByteStream [0, 0, 1] = None
   \<and> found_nalus [0, 0, 0, 1, 5, 0] = [[5, 0]]
   \<and> GetParameterSetsFromByteStream [0, 0, 0, 1, 5, 0] = (None, None)"
proof -
  have f: "found_nalus [0, 0, 0, 1, 5, 0] = [[5, 0]]"
    by (simp add: found_nalus_def ExtractNalusFromByteStream_def split_units.simps
        absent_if_empty_def)
  from nothing_found_is_absent [of "[0, 0, 2]" "[0, 0, 1]"]
    nothing_found_is_absent [of "[0, 0, 0, 1, 5, 0]" "[0, 0, 0, 1]"] f
  show ?thesis
    by (simp add: is_start_code_def)
qed

section \<open>AVC byte streams: to sample format and back\<close>

lemma start_code_head:
  "is_start_code sc \<Longrightarrow> next_start_code (sc @ r) = Some ([], r)"
  by (auto simp: is_start_code_def)

lemma unit_window:
  assumes "v \<noteq> []" "\<not> contains_start_code v" "last v \<noteq> 0"
  shows "take 3 (v @ r) \<noteq> [0, 0, 1] \<and> take 4 (v @ r) \<noteq> [0, 0, 0, 1]"
proof (cases v)
  case Nil
  with assms show ?thesis by simp
next
  case v1: (Cons b v1)
  show ?thesis
  proof (cases v1)
    case Nil
    with v1 assms show ?thesis by (auto simp: numeral_eq_Suc)
  next
    case v2: (Cons c v2)
    show ?thesis
    proof (cases v2)
      case Nil
      with v1 v2 assms show ?thesis by (auto simp: numeral_eq_Suc)
    next
      case v3: (Cons d v3)
      show ?thesis
      proof (cases v3)
        case Nil
        with v1 v2 v3 assms show ?thesis by (auto simp: numeral_eq_Suc)
      next
        case (Cons e v4)
        with v1 v2 v3 assms(2) show ?thesis by (auto simp: numeral_eq_Suc)
      qed
    qed
  qed
qed

lemma unit_then_start_code:
  assumes "is_start_code sc"
  shows "v \<noteq> [] \<Longrightarrow> \<not> contains_start_code v \<Longrightarrow> last v \<noteq> 0 \<Longrightarrow>
         next_start_code (v @ sc @ r) = Some (v, r)"
proof (induction v)
  case Nil
  then show ?case by simp
next
  case (Cons b v)
  from unit_window[OF Cons.prems, of "sc @ r"]
  have w: "take 3 ((b # v) @ sc @ r) \<noteq> [0, 0, 1]" "take 4 ((b # v) @ sc @ r) \<noteq> [0, 0, 0, 1]"
    by auto
  have "next_start_code (v @ sc @ r) = Some (v, r)"
  proof (cases "v = []")
    case True
    with assms show ?thesis by (simp add: start_code_head)
  next
    case False
    with Cons.prems have "\<not> contains_start_code v" "last v \<noteq> 0" by auto
    with False show ?thesis by (rule Cons.IH)
  qed
  with w show ?case by simp
qed

lemma split_units_well_formed:
  "well_formed ((sc, u) # rest) \<Longrightarrow> split_units (u @ annexb rest) = u # map snd rest"
proof (induction rest arbitrary: sc u)
  case Nil
  then have "next_start_code u = None" by (auto intro: no_start_code_none)
  then show ?case by (subst split_units.simps) simp
next
  case (Cons p rest)
  obtain sc' u' where p: "p = (sc', u')" by (cases p)
  from Cons.prems p have wf: "well_formed ((sc', u') # rest)" and sc': "is_start_code sc'"
    and u: "u \<noteq> []" "\<not> contains_start_code u" "last u \<noteq> 0"
    by auto
  have "next_start_code (u @ sc' @ (u' @ annexb rest)) = Some (u, u' @ annexb rest)"
    using sc' u by (rule unit_then_start_code)
  then have "split_units (u @ annexb (p # rest)) = u # split_units (u' @ annexb rest)"
    using p by (subst split_units.simps) simp
  with Cons.IH[OF wf] p show ?case by simp
qed

lemma well_formed_units_nonempty: "well_formed parts \<Longrightarrow> \<forall>u\<in>set (map snd parts). u \<noteq> []"
  by (induction parts rule: well_formed.induct) auto

lemma well_formed_units_short: "well_formed parts \<Longrightarrow> \<forall>u\<in>set (map snd parts). length u < 2 ^ 32"
  by (induction parts rule: well_formed.induct) auto

lemma found_nalus_well_formed:
  assumes "well_formed parts"
  shows "found_nalus (annexb parts) = map snd parts"
proof (cases parts)
  case Nil
  then show ?thesis by (simp add: found_nalus_def ExtractNalusFromByteStream_def)
next
  case (Cons p rest)
  obtain sc u where p: "p = (sc, u)" by (cases p)
  from assms Cons p have wf: "well_formed ((sc, u) # rest)" by simp
  then have "is_start_code sc" by simp
  then have "next_start_code (annexb parts) = Some ([], u @ annexb rest)"
    using Cons p by (simp add: start_code_head)
  moreover have "filter (\<lambda>u. u \<noteq> []) (u # map snd rest) = u # map snd rest"
    using well_formed_units_nonempty[OF wf] by (auto simp: filter_id_conv)
  ultimately show ?thesis
    using split_units_well_formed[OF wf] Cons p
    by (simp add: found_nalus_def ExtractNalusFromByteStream_def absent_if_empty_def)
qed

lemma unat_of_nat32: "n < 2 ^ 32 \<Longrightarrow> unat (of_nat n :: uint32) = n"
  by (simp add: unat_of_nat)

lemma sample_to_byte_stream:
  "\<forall>u\<in>set us. length u < 2 ^ 32 \<Longrightarrow>
   ConvertSampleToByteStream (concat (map (\<lambda>u. BigEndian_PutUint32 (of_nat (length u)) @ u) us))
     = Some (concat (map (\<lambda>u. [0, 0, 0, 1] @ u) us))"
proof (induction us)
  case Nil
  show ?case by (subst ConvertSampleToByteStream.simps) simp
next
  case (Cons u us)
  let ?rest = "concat (map (\<lambda>u. BigEndian_PutUint32 (of_nat (length u)) @ u) us)"
  let ?len = "BigEndian_PutUint32 (of_nat (length u))"
  let ?sample = "?len @ u @ ?rest"
  have l4: "length ?len = 4" by (simp add: BigEndian_PutUint32_def)
  then have t: "take 4 ?sample = ?len" by simp
  have n: "unat (BigEndian_Uint32 ?len) = length u"
    using Cons.prems by (simp add: be32_roundtrip unat_of_nat32)
  have ne: "?sample \<noteq> []" using l4 by auto
  have d: "drop (4 + length u) ?sample = ?rest" using l4 by simp
  have p: "take (length u) (drop 4 ?sample) = u" using l4 by simp
  have ge: "\<not> length ?sample < 4 + length u" using l4 by simp
  have ih: "ConvertSampleToByteStream ?rest = Some (concat (map (\<lambda>u. [0, 0, 0, 1] @ u) us))"
    using Cons by simp
  have "ConvertSampleToByteStream ?sample = Some ([0, 0, 0, 1] @ u @ concat (map (\<lambda>u. [0, 0, 0, 1] @ u) us))"
    apply (subst ConvertSampleToByteStream.simps)
    apply (simp only: t n ne d p ge ih if_False option.case)
    done
  then show ?case by simp
qed

lemma annexb_canonical:
  "concat (map (\<lambda>u. [0, 0, 0, 1] @ u) (map snd parts))
     = annexb (map (\<lambda>(sc, u). ([0, 0, 0, 1], u)) parts)"
  by (induction parts) auto

lemma annexb_all_four:
  "list_all (\<lambda>(sc, u). sc = [0, 0, 0, 1]) parts \<Longrightarrow> map (\<lambda>(sc, u). ([0, 0, 0, 1], u)) parts = parts"
  by (induction parts) auto


text \<open>
  Claim C9. For a well-formed Annex-B buffer, converting to sample format and back to a
  byte stream gives the same units in the same order, each after the 4-byte start code
  \<open>00 00 00 01\<close>; when every start code of the buffer has four bytes the result is the
  buffer itself.
\<close>

theorem byte_stream_round_trip:
  assumes "well_formed parts"
  shows "found_nalus (annexb parts) = map snd parts
    \<and> ConvertSampleToByteStream (ConvertByteStreamToNaluSample (annexb parts))
        = Some (annexb (map (\<lambda>(sc, u). ([0, 0, 0, 1], u)) parts))
    \<and> (list_all (\<lambda>(sc, u). sc = [0, 0, 0, 1]) parts \<longrightarrow>
         ConvertSampleToByteStream (ConvertByteStreamToNaluSample (annexb parts)) = Some (annexb parts))"
proof -
  have f: "found_nalus (annexb parts) = map snd parts"
    using assms by (rule found_nalus_well_formed)
  have "ConvertSampleToByteStream (ConvertByteStreamToNaluSample (annexb parts))
          = Some (concat (map (\<lambda>u. [0, 0, 0, 1] @ u) (map snd parts)))"
    unfolding ConvertByteStreamToNaluSample_def f
    using well_formed_units_short[OF assms] by (rule sample_to_byte_stream)
  then have r: "ConvertSampleToByteStream (ConvertByteStreamToNaluSample (annexb parts))
          = Some (annexb (map (\<lambda>(sc, u). ([0, 0, 0, 1], u)) parts))"
    by (simp only: annexb_canonical)
  with f show ?thesis
    by (auto simp: annexb_all_four)
qed


theorem byte_stream_round_trip_witness:
  "well_formed [([0, 0, 1], [2, 3]), ([0, 0, 0, 1], [7])]
   \<and> annexb [([0, 0, 1], [2, 3]), ([0, 0, 0, 1], [7])] = [0, 0, 1, 2, 3, 0, 0, 0, 1, 7]
   \<and> ConvertSampleToByteStream (ConvertByteStreamToNaluSample [0, 0, 1, 2, 3, 0, 0, 0, 1, 7])
       = Some [0, 0, 0, 1, 2, 3, 0, 0, 0, 1, 7]
   \<and> ConvertSampleToByteStream (ConvertByteStreamToNaluSample [0, 0, 0, 1, 2, 3, 0, 0, 0, 1, 7])
       = Some [0, 0, 0, 1, 2, 3, 0, 0, 0, 1, 7]"
  using byte_stream_round_trip [of "[([0, 0, 1], [2, 3]), ([0, 0, 0, 1], [7])]"]
    byte_stream_round_trip [of "[([0, 0, 0, 1], [2, 3]), ([0, 0, 0, 1], [7])]"]
  by (simp add: is_start_code_def)

end
